theory Spec2Isabelle
  imports Main
begin

section \<open>Strings of the host language\<close>

text \<open>
  A text is a \<^typ>\<open>string\<close>: the list of its code units, each a \<^typ>\<open>char\<close>
  (the units 0 to 255). The two line terminators and the white space of the host's
  regular expressions are the ones among these units.
\<close>

definition LF :: char where
  "LF = CHR 0x0A"

definition CR :: char where
  "CR = CHR 0x0D"

definition isLineTerminator :: "char \<Rightarrow> bool" where
  \<comment> \<open>what \<open>.\<close> refuses and what \<open>^\<close> under the \<open>m\<close> flag looks back at\<close>
  "isLineTerminator c = (c = LF \<or> c = CR)"

definition isSpaceJS :: "char \<Rightarrow> bool" where
  \<comment> \<open>the class \<open>\s\<close>: tab, LF, VT, FF, CR, space, no-break space\<close>
  "isSpaceJS c = (c = CHR 0x09 \<or> c = CHR 0x0A \<or> c = CHR 0x0B \<or> c = CHR 0x0C \<or>
                  c = CHR 0x0D \<or> c = CHR 0x20 \<or> c = CHR 0xA0)"

definition isDigit :: "char \<Rightarrow> bool" where
  \<comment> \<open>the class \<open>\d\<close>\<close>
  "isDigit c = (c = CHR ''0'' \<or> c = CHR ''1'' \<or> c = CHR ''2'' \<or> c = CHR ''3'' \<or> c = CHR ''4'' \<or>
                c = CHR ''5'' \<or> c = CHR ''6'' \<or> c = CHR ''7'' \<or> c = CHR ''8'' \<or> c = CHR ''9'')"

text \<open>\<open>s.split("\n")\<close>: the pieces between the line feeds; never the empty list.\<close>

fun splitOn :: "string \<Rightarrow> string \<Rightarrow> string list" where
  "splitOn cur [] = [cur]"
| "splitOn cur (c # cs) = (if c = LF then cur # splitOn [] cs else splitOn (cur @ [c]) cs)"

definition split_lines :: "string \<Rightarrow> string list" where
  "split_lines s = splitOn [] s"

text \<open>\<open>xs.join("\n")\<close>: the empty array gives the empty text.\<close>

fun join_lines :: "string list \<Rightarrow> string" where
  "join_lines [] = []"
| "join_lines [l] = l"
| "join_lines (l # m # ls) = l @ LF # join_lines (m # ls)"

text \<open>\<open>xs[i]\<close>: \<open>undefined\<close> out of range, which is \<open>None\<close> here.\<close>

definition at_index :: "'a list \<Rightarrow> nat \<Rightarrow> 'a option" where
  "at_index xs i = (if i < length xs then Some (xs ! i) else None)"

fun stripPrefix :: "string \<Rightarrow> string \<Rightarrow> string option" where
  "stripPrefix [] s = Some s"
| "stripPrefix (p # ps) [] = None"
| "stripPrefix (p # ps) (c # cs) = (if p = c then stripPrefix ps cs else None)"

section \<open>Line endings\<close>

datatype EndOfLine = EOL_LF | EOL_CRLF

text \<open>\<open>s.replace(/\r\n/g, "\n")\<close>: one pass from the left, matches do not overlap.\<close>

fun normalizeEOL :: "string \<Rightarrow> string" where
  "normalizeEOL [] = []"
| "normalizeEOL [c] = [c]"
| "normalizeEOL (c # d # cs) =
     (if c = CR \<and> d = LF then LF # normalizeEOL cs else c # normalizeEOL (d # cs))"

text \<open>\<open>s.replace(/\n/g, "\r\n")\<close> for CRLF, the text itself otherwise.\<close>

fun crlf :: "string \<Rightarrow> string" where
  "crlf [] = []"
| "crlf (c # cs) = (if c = LF then CR # LF # crlf cs else c # crlf cs)"

definition restoreEOL :: "string \<Rightarrow> EndOfLine \<Rightarrow> string" where
  "restoreEOL s eol = (if eol = EOL_CRLF then crlf s else s)"

text \<open>
  The reading of the specification. A line ending of a text is a CR LF pair or a LF
  with no CR before it; a CR with no LF after it belongs to its line. \<open>logicalLines\<close>
  gives the lines between the line endings and \<open>lineEndings\<close> the form of each line
  ending, both in order.
\<close>

fun logicalLines :: "string \<Rightarrow> string \<Rightarrow> string list" where
  "logicalLines cur [] = [cur]"
| "logicalLines cur [c] = (if c = LF then [cur, []] else [cur @ [c]])"
| "logicalLines cur (c # d # cs) =
     (if c = CR \<and> d = LF then cur # logicalLines [] cs
      else if c = LF then cur # logicalLines [] (d # cs)
      else logicalLines (cur @ [c]) (d # cs))"

fun lineEndings :: "string \<Rightarrow> EndOfLine list" where
  "lineEndings [] = []"
| "lineEndings [c] = (if c = LF then [EOL_LF] else [])"
| "lineEndings (c # d # cs) =
     (if c = CR \<and> d = LF then EOL_CRLF # lineEndings cs
      else if c = LF then EOL_LF # lineEndings (d # cs)
      else lineEndings (d # cs))"

text \<open>
  A text \<open>out\<close> is the text \<open>t\<close> with every line ending in the form \<open>c\<close> when it has
  the lines of \<open>t\<close> and each of its line endings has the form \<open>c\<close>.
\<close>

definition hasLineEndingsOf :: "EndOfLine \<Rightarrow> string \<Rightarrow> string \<Rightarrow> bool" where
  "hasLineEndingsOf c t out =
     (logicalLines [] out = logicalLines [] t \<and> list_all (\<lambda>e. e = c) (lineEndings out))"

text \<open>Whether somewhere in the text a CR stands directly before a CR LF pair.\<close>

fun crBeforeCRLF :: "string \<Rightarrow> bool" where
  "crBeforeCRLF (c # d # e # cs) = ((c = CR \<and> d = CR \<and> e = LF) \<or> crBeforeCRLF (d # e # cs))"
| "crBeforeCRLF cs = False"

section \<open>Diff detection\<close>

text \<open>
  \<open>/^@@\s-/.test(s)\<close>: the expression has no \<open>m\<close> flag, so \<open>^\<close> is the start
  of the text.
\<close>

definition startsWithHunkHeader :: "string \<Rightarrow> bool" where
  "startsWithHunkHeader s =
     (case s of a # b # c # d # _ \<Rightarrow> a = CHR ''@'' \<and> b = CHR ''@'' \<and> isSpaceJS c \<and> d = CHR ''-''
      | _ \<Rightarrow> False)"

text \<open>
  \<open>/^---\s.+\n\+\+\+\s.+/m\<close> tried at one position: \<open>.+\<close> is a run of units that
  are no line terminators, and the run before \<open>\n\<close> is the longest one.
\<close>

definition fileHeadersAt :: "string \<Rightarrow> bool" where
  "fileHeadersAt s =
     (case stripPrefix ''---'' s of
        None \<Rightarrow> False
      | Some r \<Rightarrow>
          (case r of
             [] \<Rightarrow> False
           | w # r1 \<Rightarrow>
               isSpaceJS w \<and>
               takeWhile (\<lambda>c. \<not> isLineTerminator c) r1 \<noteq> [] \<and>
               (case stripPrefix (LF # ''+++'') (dropWhile (\<lambda>c. \<not> isLineTerminator c) r1) of
                  None \<Rightarrow> False
                | Some r3 \<Rightarrow>
                    (case r3 of
                       w2 # x # _ \<Rightarrow> isSpaceJS w2 \<and> \<not> isLineTerminator x
                     | _ \<Rightarrow> False))))"

text \<open>The \<open>m\<close> flag: a match may start at the start of the text or after a line terminator.\<close>

fun fileHeadersFrom :: "bool \<Rightarrow> string \<Rightarrow> bool" where
  "fileHeadersFrom atLineStart [] = False"
| "fileHeadersFrom atLineStart (c # cs) =
     ((atLineStart \<and> fileHeadersAt (c # cs)) \<or> fileHeadersFrom (isLineTerminator c) cs)"

definition isLikelyUnifiedDiff :: "string \<Rightarrow> bool" where
  "isLikelyUnifiedDiff s =
     (if s = [] then False else startsWithHunkHeader s \<or> fileHeadersFrom True s)"

section \<open>Hunk parser\<close>

record Hunk =
  header :: string
  body :: "string list"
  oldStart :: nat
  oldCount :: "nat option"
  newStart :: nat
  newCount :: "nat option"

text \<open>
  The two failures of the engine, each an \<open>Error\<close> of the host with its message:
  \<open>Invalid hunk header: <header>\<close> and \<open>Could not apply hunk:\n<header>\<close>.
\<close>

datatype error = MalformedHunkHeader string | HunkApplicationFailed string

fun errorMessage :: "error \<Rightarrow> string" where
  "errorMessage (MalformedHunkHeader h) = ''Invalid hunk header: '' @ h"
| "errorMessage (HunkApplicationFailed h) = ''Could not apply hunk:'' @ LF # h"

text \<open>
  \<open>diffText.split(/^@@/gm)\<close>: the text is cut at every \<open>@@\<close> that stands at the start of
  the text or after a line terminator; \<open>atLineStart\<close> tells whether the unit before the
  position is one, \<open>cur\<close> is the piece read so far.
\<close>

fun splitAtMarkers :: "bool \<Rightarrow> string \<Rightarrow> string \<Rightarrow> string list" where
  "splitAtMarkers atLineStart cur [] = [cur]"
| "splitAtMarkers atLineStart cur [c] = [cur @ [c]]"
| "splitAtMarkers atLineStart cur (c # d # cs) =
     (if atLineStart \<and> c = CHR ''@'' \<and> d = CHR ''@'' then cur # splitAtMarkers False [] cs
      else splitAtMarkers (isLineTerminator c) (cur @ [c]) (d # cs))"

definition hunkParts :: "string \<Rightarrow> string list" where
  \<comment> \<open>\<open>.slice(1).map(h => `@@${h}`)\<close>\<close>
  "hunkParts diffText = map (\<lambda>h. ''@@'' @ h) (drop 1 (splitAtMarkers True [] diffText))"

definition headerOf :: "string \<Rightarrow> string" where
  \<comment> \<open>\<open>lines[0] ?? ""\<close>\<close>
  "headerOf raw = (case split_lines raw of [] \<Rightarrow> [] | l # _ \<Rightarrow> l)"

definition optCount :: "string \<Rightarrow> string option \<times> string" where
  \<comment> \<open>the optional group \<open>(?:,(\d+))?\<close>: the capture and the rest of the text\<close>
  "optCount s =
     (case s of
        [] \<Rightarrow> (None, s)
      | c # cs \<Rightarrow>
          if c = CHR '','' \<and> takeWhile isDigit cs \<noteq> []
          then (Some (takeWhile isDigit cs), dropWhile isDigit cs)
          else (None, s))"

text \<open>
  \<open>header.match(/^@@ -(\d+)(?:,(\d+))? \+(\d+)(?:,(\d+))? @@/)\<close>: the four captures, or
  \<open>None\<close> for \<open>null\<close>. Each \<open>\d+\<close> is the longest run of digits, since what follows it is
  no digit.
\<close>

definition matchHeader :: "string \<Rightarrow> (string \<times> string option \<times> string \<times> string option) option" where
  "matchHeader h =
     (case stripPrefix ''@@ -'' h of
        None \<Rightarrow> None
      | Some r0 \<Rightarrow>
          if takeWhile isDigit r0 = [] then None
          else
            (case optCount (dropWhile isDigit r0) of
               (m2, r2) \<Rightarrow>
                 (case stripPrefix '' +'' r2 of
                    None \<Rightarrow> None
                  | Some r3 \<Rightarrow>
                      if takeWhile isDigit r3 = [] then None
                      else
                        (case optCount (dropWhile isDigit r3) of
                           (m4, r5) \<Rightarrow>
                             (case stripPrefix '' @@'' r5 of
                                None \<Rightarrow> None
                              | Some _ \<Rightarrow>
                                  Some (takeWhile isDigit r0, m2, takeWhile isDigit r3, m4))))))"

text \<open>
  \<open>Number(m[i])\<close> on a run of decimal digits. The host rounds a value above \<open>2^53\<close> to
  a double; the engine never reads these four fields.
\<close>

definition digitValue :: "char \<Rightarrow> nat" where
  "digitValue c = of_char c - 48"

definition numberOf :: "string \<Rightarrow> nat" where
  "numberOf ds = foldl (\<lambda>n c. 10 * n + digitValue c) 0 ds"

text \<open>The loop of \<open>parseHunks\<close> over the parts, \<open>hunks\<close> the array filled so far.\<close>

fun parseParts :: "string list \<Rightarrow> Hunk list \<Rightarrow> error + Hunk list" where
  "parseParts [] hunks = Inr hunks"
| "parseParts (raw # rest) hunks =
     (case matchHeader (headerOf raw) of
        None \<Rightarrow> Inl (MalformedHunkHeader (headerOf raw))
      | Some (m1, m2, m3, m4) \<Rightarrow>
          parseParts rest
            (hunks @
             [\<lparr>header = headerOf raw,
               body = drop 1 (split_lines raw),
               oldStart = numberOf m1,
               oldCount = map_option numberOf m2,
               newStart = numberOf m3,
               newCount = map_option numberOf m4\<rparr>]))"

definition parseHunks :: "string \<Rightarrow> error + Hunk list" where
  "parseHunks diffText = parseParts (hunkParts diffText) []"

section \<open>Sequence matcher\<close>

text \<open>The counting loop of \<open>scoreSequence\<close>, from index \<open>i\<close> with the score so far.\<close>

function scoreLoop :: "string list \<Rightarrow> string list \<Rightarrow> nat \<Rightarrow> nat \<Rightarrow> nat \<Rightarrow> nat" where
  "scoreLoop window target n i score =
     (if i < n
      then scoreLoop window target n (i + 1) (if window ! i = target ! i then score + 1 else score)
      else score)"
  by pat_completeness auto
termination
  by (relation "measure (\<lambda>(window, target, n, i, score). n - i)") auto

declare scoreLoop.simps [simp del]

definition scoreSequence :: "string list \<Rightarrow> string list \<Rightarrow> nat" where
  "scoreSequence window target = scoreLoop window target (min (length window) (length target)) 0 0"

text \<open>
  The sliding-window loop of \<open>applySingleHunk\<close>, from candidate \<open>i\<close> with the best index
  and score so far (both \<open>-1\<close> at the start); the value is \<open>bestIdx\<close> when the loop ends
  or breaks. \<open>contentLines.slice(i, i + oldBlock.length)\<close> stops at the end of the array.
\<close>

function windowLoop :: "string list \<Rightarrow> string list \<Rightarrow> nat \<Rightarrow> int \<Rightarrow> int \<Rightarrow> int" where
  "windowLoop contentLines oldBlock i bestIdx bestScore =
     (if i \<le> length contentLines
      then
        (if int (scoreSequence (take (length oldBlock) (drop i contentLines)) oldBlock) > bestScore
         then
           (if scoreSequence (take (length oldBlock) (drop i contentLines)) oldBlock = length oldBlock
            then int i
            else windowLoop contentLines oldBlock (i + 1) (int i)
                   (int (scoreSequence (take (length oldBlock) (drop i contentLines)) oldBlock)))
         else windowLoop contentLines oldBlock (i + 1) bestIdx bestScore)
      else bestIdx)"
  by pat_completeness auto
termination
  by (relation "measure (\<lambda>(contentLines, oldBlock, i, bestIdx, bestScore). length contentLines + 1 - i)") auto

declare windowLoop.simps [simp del]

definition findBestWindow :: "string list \<Rightarrow> string list \<Rightarrow> nat \<Rightarrow> nat option" where
  \<comment> \<open>the loop from \<open>startLine\<close>, and \<open>if (bestIdx < 0) return null\<close>\<close>
  "findBestWindow contentLines oldBlock startLine =
     (let bestIdx = windowLoop contentLines oldBlock startLine (- 1) (- 1)
      in if bestIdx < 0 then None else Some (nat bestIdx))"

section \<open>Removal verifier\<close>

fun verifyRemovals :: "string list \<Rightarrow> nat \<Rightarrow> string list \<Rightarrow> bool" where
  "verifyRemovals contentLines idx [] = True"
| "verifyRemovals contentLines idx (line # rest) =
     (if length line = 0 then verifyRemovals contentLines idx rest
      else if hd line = CHR '' '' \<or> hd line = CHR ''-''
      then (if at_index contentLines idx \<noteq> Some (tl line) then False
            else verifyRemovals contentLines (idx + 1) rest)
      else verifyRemovals contentLines idx rest)"

section \<open>Hunk applier\<close>

text \<open>The loop over \<open>hunk.body\<close> that fills \<open>oldBlock\<close> and \<open>newBlock\<close>.\<close>

fun buildBlocks :: "string list \<Rightarrow> string list \<Rightarrow> string list \<Rightarrow> string list \<times> string list" where
  "buildBlocks [] oldBlock newBlock = (oldBlock, newBlock)"
| "buildBlocks (line # rest) oldBlock newBlock =
     (if length line = 0 then buildBlocks rest oldBlock newBlock
      else buildBlocks rest
             (if hd line = CHR '' '' \<or> hd line = CHR ''-'' then oldBlock @ [tl line] else oldBlock)
             (if hd line = CHR '' '' \<or> hd line = CHR ''+'' then newBlock @ [tl line] else newBlock))"

definition oldBlockOf :: "string list \<Rightarrow> string list" where
  "oldBlockOf hunkBody = fst (buildBlocks hunkBody [] [])"

definition newBlockOf :: "string list \<Rightarrow> string list" where
  "newBlockOf hunkBody = snd (buildBlocks hunkBody [] [])"

record Applied =
  content :: string
  lastAppliedLine :: nat

definition applySingleHunk :: "string \<Rightarrow> Hunk \<Rightarrow> nat \<Rightarrow> Applied option" where
  "applySingleHunk text hunk startLine =
     (let contentLines = split_lines text;
          oldBlock = oldBlockOf (body hunk);
          newBlock = newBlockOf (body hunk)
      in case findBestWindow contentLines oldBlock startLine of
           None \<Rightarrow> None
         | Some bestIdx \<Rightarrow>
             if \<not> verifyRemovals contentLines bestIdx (body hunk) then None
             else Some \<lparr>content =
                          join_lines (take bestIdx contentLines @ newBlock @
                                      drop (bestIdx + length oldBlock) contentLines),
                        lastAppliedLine = bestIdx + length newBlock\<rparr>)"

section \<open>Patch orchestrator\<close>

text \<open>The loop of \<open>applyDiffPatch\<close> over the hunks, with the working text and the cursor.\<close>

fun applyHunks :: "string \<Rightarrow> nat \<Rightarrow> Hunk list \<Rightarrow> error + Applied" where
  "applyHunks text cursor [] = Inr \<lparr>content = text, lastAppliedLine = cursor\<rparr>"
| "applyHunks text cursor (hunk # rest) =
     (case applySingleHunk text hunk cursor of
        None \<Rightarrow> Inl (HunkApplicationFailed (header hunk))
      | Some res \<Rightarrow> applyHunks (content res) (lastAppliedLine res) rest)"

definition applyDiffPatch :: "string \<Rightarrow> string \<Rightarrow> EndOfLine \<Rightarrow> error + string" where
  "applyDiffPatch documentContent rawDiff eol =
     (let docLF = normalizeEOL documentContent;
          diff = normalizeEOL rawDiff
      in case parseHunks diff of
           Inl e \<Rightarrow> Inl e
         | Inr hunks \<Rightarrow>
             if length hunks = 0 then Inr (restoreEOL docLF eol)
             else
               (case applyHunks docLF 0 hunks of
                  Inl e \<Rightarrow> Inl e
                | Inr res \<Rightarrow> Inr (restoreEOL (content res) eol)))"

section \<open>The specification's reading of a hunk body\<close>

text \<open>
  A context or deletion line of a body is a non-empty line tagged with a space or
  \<open>-\<close>; an addition line is one tagged \<open>+\<close>. The value of a line is the line
  without its tag.
\<close>

definition isChecked :: "string \<Rightarrow> bool" where
  "isChecked l = (l \<noteq> [] \<and> (hd l = CHR '' '' \<or> hd l = CHR ''-''))"

definition isAddition :: "string \<Rightarrow> bool" where
  "isAddition l = (l \<noteq> [] \<and> hd l = CHR ''+'')"

definition isInserted :: "string \<Rightarrow> bool" where
  "isInserted l = (l \<noteq> [] \<and> (hd l = CHR '' '' \<or> hd l = CHR ''+''))"

definition checkedValues :: "string list \<Rightarrow> string list" where
  \<comment> \<open>the values of the context and deletion lines, in order\<close>
  "checkedValues hunkBody = map tl (filter isChecked hunkBody)"

definition insertedValues :: "string list \<Rightarrow> string list" where
  \<comment> \<open>the values of the context and addition lines, in order\<close>
  "insertedValues hunkBody = map tl (filter isInserted hunkBody)"

definition isIgnored :: "string \<Rightarrow> bool" where
  \<comment> \<open>a body line whose first unit is neither a space, \<open>-\<close> nor \<open>+\<close>\<close>
  "isIgnored l = (l \<noteq> [] \<and> hd l \<noteq> CHR '' '' \<and> hd l \<noteq> CHR ''-'' \<and> hd l \<noteq> CHR ''+'')"

section \<open>The specification's score of a window\<close>

text \<open>
  The score of the candidate \<open>i\<close>: the count of the positions \<open>j\<close> below the shorter of
  the window (what is left of the document from \<open>i\<close>, at most the old block's length)
  and the old block, where the document at \<open>i + j\<close> equals the old block at \<open>j\<close>.
\<close>

definition windowScore :: "string list \<Rightarrow> string list \<Rightarrow> nat \<Rightarrow> nat" where
  "windowScore document oldBlock i =
     length (filter (\<lambda>j. document ! (i + j) = oldBlock ! j)
               [0 ..< min (min (length oldBlock) (length document - i)) (length oldBlock)])"

section \<open>The cursor along one patch operation\<close>

text \<open>
  What the loop of \<open>applyDiffPatch\<close> does at each hunk it applies, in order and up to
  the first hunk that fails: the index the search started at (the cursor it was given),
  the index matched, and the cursor it left.
\<close>

record Step =
  searchStart :: nat
  matchedIndex :: nat
  nextCursor :: nat

fun cursorTrace :: "string \<Rightarrow> nat \<Rightarrow> Hunk list \<Rightarrow> Step list" where
  "cursorTrace text cursor [] = []"
| "cursorTrace text cursor (hunk # rest) =
     (case applySingleHunk text hunk cursor of
        None \<Rightarrow> []
      | Some res \<Rightarrow>
          (case findBestWindow (split_lines text) (oldBlockOf (body hunk)) cursor of
             None \<Rightarrow> []
           | Some m \<Rightarrow>
               \<lparr>searchStart = cursor, matchedIndex = m, nextCursor = lastAppliedLine res\<rparr>
               # cursorTrace (content res) (lastAppliedLine res) rest))"

section \<open>Example inputs\<close>

definition exampleDoc :: string where
  "exampleDoc = ''a'' @ LF # ''b''"

definition exampleDiff :: string where
  \<comment> \<open>two hunks; after the first the document is \<open>b\<close>, \<open>b\<close>, and the second finds no \<open>x\<close>\<close>
  "exampleDiff = ''@@ -1 +1 @@'' @ LF # ''-a'' @ LF # ''+b'' @ LF #
                 ''@@ -2 +2 @@'' @ LF # ''-x'' @ LF # ''+y''"

definition exampleHunk1 :: Hunk where
  "exampleHunk1 = \<lparr>header = ''@@ -1 +1 @@'', body = [''-a'', ''+b'', []], oldStart = 1,
                    oldCount = None, newStart = 1, newCount = None\<rparr>"

definition exampleHunk2 :: Hunk where
  "exampleHunk2 = \<lparr>header = ''@@ -2 +2 @@'', body = [''-x'', ''+y''], oldStart = 2,
                    oldCount = None, newStart = 2, newCount = None\<rparr>"

definition exampleHunk3 :: Hunk where
  \<comment> \<open>its old block is what the first hunk has just inserted\<close>
  "exampleHunk3 = \<lparr>header = ''@@ -2 +2 @@'', body = [''-b'', ''+c''], oldStart = 2,
                    oldCount = None, newStart = 2, newCount = None\<rparr>"

definition exampleBadDiff :: string where
  "exampleBadDiff = ''--- a/f'' @ LF # ''@@ -1 +1 @@'' @ LF # ''-a'' @ LF # ''+b'' @ LF #
                    ''@@ garbage @@'' @ LF # '' x'' @ LF # ''@@ -2 +2 @@'' @ LF # ''-b''"

definition examplePreambleDiff :: string where
  \<comment> \<open>a hunk after one line of preamble, with no \<open>---\<close>/\<open>+++\<close> pair\<close>
  "examplePreambleDiff = ''diff --git a/f b/f'' @ LF # ''@@ -1 +1 @@'' @ LF # ''-a'' @ LF # ''+b''"


section \<open>Properties of the line normalizer\<close>

lemma LF_neq_CR: "LF \<noteq> CR" "CR \<noteq> LF"
  by (simp_all add: LF_def CR_def)

lemma crlf_head: "crlf s = d # ds \<Longrightarrow> d \<noteq> LF"
  by (cases s) (auto simp: LF_neq_CR split: if_splits)

lemma logicalLines_crlf: "logicalLines cur (crlf s) = splitOn cur s"
proof (induction s arbitrary: cur)
  case Nil
  then show ?case by simp
next
  case (Cons c cs)
  show ?case
  proof (cases "c = LF")
    case True
    with Cons show ?thesis by simp
  next
    case False
    show ?thesis
    proof (cases "crlf cs")
      case Nil
      then have "cs = []" by (cases cs) (auto split: if_splits)
      with False show ?thesis by simp
    next
      case (Cons d ds)
      with crlf_head have "d \<noteq> LF" by blast
      with False Cons Cons.IH [of "cur @ [c]"] show ?thesis by simp
    qed
  qed
qed

lemma splitOn_normalizeEOL: "splitOn cur (normalizeEOL t) = logicalLines cur t"
  by (induction t arbitrary: cur rule: normalizeEOL.induct) (auto simp: LF_neq_CR)

lemma lines_crlf_normalizeEOL: "logicalLines [] (crlf (normalizeEOL t)) = logicalLines [] t"
  by (simp add: logicalLines_crlf splitOn_normalizeEOL)

lemma lineEndings_crlf: "list_all (\<lambda>e. e = EOL_CRLF) (lineEndings (crlf s))"
proof (induction s)
  case Nil
  then show ?case by simp
next
  case (Cons c cs)
  show ?case
  proof (cases "c = LF")
    case True
    with Cons show ?thesis by simp
  next
    case False
    show ?thesis
    proof (cases "crlf cs")
      case Nil
      with False show ?thesis by simp
    next
      case (Cons d ds)
      with crlf_head have "d \<noteq> LF" by blast
      with False Cons Cons.IH show ?thesis by simp
    qed
  qed
qed

lemma crBeforeCRLF_Cons:
  "crBeforeCRLF (c # cs) = ((c = CR \<and> (\<exists>r. cs = CR # LF # r)) \<or> crBeforeCRLF cs)"
proof (cases cs)
  case Nil then show ?thesis by simp
next
  case (Cons d ds)
  then show ?thesis by (cases ds) auto
qed

lemma normalizeEOL_Nil: "(normalizeEOL t = []) = (t = [])"
  by (induction t rule: normalizeEOL.induct) auto

lemma normalizeEOL_head_LF:
  "(\<exists>r. normalizeEOL t = LF # r) = ((\<exists>r. t = LF # r) \<or> (\<exists>r. t = CR # LF # r))"
  by (cases t rule: normalizeEOL.cases) (auto simp: LF_neq_CR)


lemma crBeforeCRLF_CRLF: "crBeforeCRLF (CR # LF # cs) = crBeforeCRLF cs"
  using crBeforeCRLF_Cons [of CR "LF # cs"] crBeforeCRLF_Cons [of LF cs]
  by (simp add: LF_neq_CR)

lemma lineEndings_normalizeEOL:
  "list_all (\<lambda>e. e = EOL_LF) (lineEndings (normalizeEOL t)) = (\<not> crBeforeCRLF t)"
proof (induction t rule: normalizeEOL.induct)
  case 1
  then show ?case by simp
next
  case (2 c)
  then show ?case by simp
next
  case (3 c d cs)
  show ?case
  proof (cases "c = CR \<and> d = LF")
    case True
    then have out: "normalizeEOL (c # d # cs) = LF # normalizeEOL cs" by simp
    have "lineEndings (LF # normalizeEOL cs) = EOL_LF # lineEndings (normalizeEOL cs)"
      by (cases "normalizeEOL cs") (auto simp: LF_neq_CR)
    moreover have "crBeforeCRLF (c # d # cs) = crBeforeCRLF cs"
      using True by (simp add: crBeforeCRLF_CRLF)
    ultimately show ?thesis using 3(1) True out by simp
  next
    case False
    then have out: "normalizeEOL (c # d # cs) = c # normalizeEOL (d # cs)" by auto
    obtain e es where e: "normalizeEOL (d # cs) = e # es"
      using normalizeEOL_Nil [of "d # cs"] by (cases "normalizeEOL (d # cs)") auto
    have eLF: "(e = LF) = (d = LF \<or> (d = CR \<and> (\<exists>r. cs = LF # r)))"
      using normalizeEOL_head_LF [of "d # cs"] e by auto
    show ?thesis
    proof (cases "c = CR \<and> e = LF")
      case True
      with False eLF have "d = CR \<and> (\<exists>r. cs = LF # r)" by auto
      with True have "crBeforeCRLF (c # d # cs)" by (auto simp: crBeforeCRLF_Cons [of c])
      moreover from True e out have "lineEndings (normalizeEOL (c # d # cs)) = EOL_CRLF # lineEndings es"
        by simp
      ultimately show ?thesis by simp
    next
      case nb: False
      with False eLF have nocr: "\<not> (c = CR \<and> (\<exists>r. d # cs = CR # LF # r))" by auto
      then have cr: "crBeforeCRLF (c # d # cs) = crBeforeCRLF (d # cs)"
        using crBeforeCRLF_Cons [of c "d # cs"] by blast
      from nb e out have "list_all (\<lambda>e. e = EOL_LF) (lineEndings (normalizeEOL (c # d # cs)))
          = list_all (\<lambda>e. e = EOL_LF) (lineEndings (normalizeEOL (d # cs)))"
        by auto
      with 3(2) False cr show ?thesis by auto
    qed
  qed
qed

lemma logicalLines_normalizeEOL:
  "\<not> crBeforeCRLF t \<Longrightarrow> logicalLines cur (normalizeEOL t) = logicalLines cur t"
proof (induction t arbitrary: cur rule: normalizeEOL.induct)
  case 1
  then show ?case by simp
next
  case (2 c)
  then show ?case by simp
next
  case (3 c d cs)
  show ?case
  proof (cases "c = CR \<and> d = LF")
    case True
    then have out: "normalizeEOL (c # d # cs) = LF # normalizeEOL cs" by simp
    from True 3(3) have "\<not> crBeforeCRLF cs"
      by (simp add: crBeforeCRLF_CRLF)
    with 3(1) True have ih: "logicalLines [] (normalizeEOL cs) = logicalLines [] cs" by simp
    have "logicalLines cur (LF # normalizeEOL cs) = cur # logicalLines [] (normalizeEOL cs)"
      by (cases "normalizeEOL cs") (auto simp: LF_neq_CR)
    with ih out True show ?thesis by simp
  next
    case False
    then have out: "normalizeEOL (c # d # cs) = c # normalizeEOL (d # cs)" by auto
    obtain e es where e: "normalizeEOL (d # cs) = e # es"
      using normalizeEOL_Nil [of "d # cs"] by (cases "normalizeEOL (d # cs)") auto
    have eLF: "(e = LF) = (d = LF \<or> (d = CR \<and> (\<exists>r. cs = LF # r)))"
      using normalizeEOL_head_LF [of "d # cs"] e by auto
    from 3(3) have n: "\<not> (c = CR \<and> (\<exists>r. d # cs = CR # LF # r))" "\<not> crBeforeCRLF (d # cs)"
      using crBeforeCRLF_Cons [of c "d # cs"] by blast+
    with False eLF have nb: "\<not> (c = CR \<and> e = LF)" by auto
    from 3(2) False n(2) have ih: "\<And>cur. logicalLines cur (e # es) = logicalLines cur (d # cs)"
      by (simp add: e)
    from nb have "logicalLines cur (c # e # es) =
        (if c = LF then cur # logicalLines [] (e # es) else logicalLines (cur @ [c]) (e # es))"
      by auto
    with ih False out e show ?thesis by auto
  qed
qed

text \<open>
  C7, as amended. For every text \<open>t\<close>: with the target CRLF, restoring the line
  endings of the normalized text gives a text that has the lines of \<open>t\<close> and every
  line ending in the CR LF form; with the target LF it gives a text that has the lines
  of \<open>t\<close> and every line ending in the LF form exactly when no CR stands directly
  before a CR LF pair in \<open>t\<close>. Normalizing is one pass: such a CR stays, and with the
  LF left of the pair it makes a CR LF ending in the result.
\<close>

theorem restoreEOL_normalizeEOL:
  "hasLineEndingsOf EOL_CRLF t (restoreEOL (normalizeEOL t) EOL_CRLF)
   \<and> hasLineEndingsOf EOL_LF t (restoreEOL (normalizeEOL t) EOL_LF) = (\<not> crBeforeCRLF t)"
  using lines_crlf_normalizeEOL [of t] lineEndings_crlf [of "normalizeEOL t"]
    lineEndings_normalizeEOL [of t] logicalLines_normalizeEOL [of t "[]"]
  by (auto simp: hasLineEndingsOf_def restoreEOL_def)

text \<open>
  The claim as it was stated fails for the target LF at the text CR CR LF: the result is
  CR LF, whose one line ending has the CR LF form and whose first line is empty, where
  the first line of the text is a CR.
\<close>

theorem restoreEOL_normalizeEOL_counterexample:
  "restoreEOL (normalizeEOL [CR, CR, LF]) EOL_LF = [CR, LF]
   \<and> lineEndings [CR, LF] = [EOL_CRLF]
   \<and> logicalLines [] [CR, LF] = [[], []]
   \<and> logicalLines [] [CR, CR, LF] = [[CR], []]
   \<and> \<not> hasLineEndingsOf EOL_LF [CR, CR, LF] (restoreEOL (normalizeEOL [CR, CR, LF]) EOL_LF)"
  by (simp add: restoreEOL_def hasLineEndingsOf_def LF_neq_CR)

theorem restoreEOL_normalizeEOL_witness:
  "restoreEOL (normalizeEOL [CHR ''a'', CR, LF, CHR ''b'', LF, CHR ''c'', CR, CHR ''d'']) EOL_CRLF
     = [CHR ''a'', CR, LF, CHR ''b'', CR, LF, CHR ''c'', CR, CHR ''d'']
   \<and> hasLineEndingsOf EOL_CRLF [CHR ''a'', CR, LF, CHR ''b'', LF, CHR ''c'', CR, CHR ''d'']
        (restoreEOL (normalizeEOL [CHR ''a'', CR, LF, CHR ''b'', LF, CHR ''c'', CR, CHR ''d'']) EOL_CRLF)
   \<and> hasLineEndingsOf EOL_LF [CHR ''a'', CR, LF, CHR ''b'', LF, CHR ''c'', CR, CHR ''d'']
        (restoreEOL (normalizeEOL [CHR ''a'', CR, LF, CHR ''b'', LF, CHR ''c'', CR, CHR ''d'']) EOL_LF)
   \<and> restoreEOL (normalizeEOL [CHR ''a'', CR, LF, CHR ''b'', LF, CHR ''c'', CR, CHR ''d'']) EOL_LF
     = [CHR ''a'', LF, CHR ''b'', LF, CHR ''c'', CR, CHR ''d'']"
proof -
  let ?t = "[CHR ''a'', CR, LF, CHR ''b'', LF, CHR ''c'', CR, CHR ''d'']"
  have n: "\<not> crBeforeCRLF ?t" by (simp add: LF_def CR_def)
  note th = restoreEOL_normalizeEOL [of ?t]
  from th have a: "hasLineEndingsOf EOL_CRLF ?t (restoreEOL (normalizeEOL ?t) EOL_CRLF)" by blast
  from th n have b: "hasLineEndingsOf EOL_LF ?t (restoreEOL (normalizeEOL ?t) EOL_LF)" by blast
  have c: "restoreEOL (normalizeEOL ?t) EOL_CRLF = [CHR ''a'', CR, LF, CHR ''b'', CR, LF, CHR ''c'', CR, CHR ''d'']"
    by (simp add: restoreEOL_def LF_def CR_def)
  have d: "restoreEOL (normalizeEOL ?t) EOL_LF = [CHR ''a'', LF, CHR ''b'', LF, CHR ''c'', CR, CHR ''d'']"
    by (simp add: restoreEOL_def LF_def CR_def)
  from a b c d show ?thesis by (intro conjI)
qed

section \<open>Properties of the removal verifier\<close>

lemma buildBlocks_acc:
  "buildBlocks b ob nb = (ob @ checkedValues b, nb @ insertedValues b)"
  by (induction b ob nb rule: buildBlocks.induct)
     (auto simp: checkedValues_def insertedValues_def isChecked_def isInserted_def)

lemma oldBlockOf_checked: "oldBlockOf b = checkedValues b"
  by (simp add: oldBlockOf_def buildBlocks_acc)

lemma newBlockOf_inserted: "newBlockOf b = insertedValues b"
  by (simp add: newBlockOf_def buildBlocks_acc)

lemma all_less_Suc_shift: "(\<forall>k < Suc n. P k) = (P 0 \<and> (\<forall>k < n. P (Suc k)))"
  by (metis less_Suc_eq_0_disj Suc_less_eq  zero_less_Suc)

lemma verifyRemovals_walk:
  "verifyRemovals doc m b =
     (\<forall>k < length (checkedValues b). at_index doc (m + k) = Some (checkedValues b ! k))"
proof (induction doc m b rule: verifyRemovals.induct)
  case (1 doc m)
  then show ?case by (simp add: checkedValues_def)
next
  case (2 doc idx line rest)
  show ?case
  proof (cases "isChecked line")
    case False
    with 2 show ?thesis by (auto simp: checkedValues_def isChecked_def)
  next
    case True
    then have cv: "checkedValues (line # rest) = tl line # checkedValues rest"
      by (simp add: checkedValues_def)
    from True have v: "verifyRemovals doc idx (line # rest) =
        (at_index doc idx = Some (tl line) \<and> verifyRemovals doc (idx + 1) rest)"
      by (auto simp: isChecked_def)
    from True 2(2) have ih: "at_index doc idx = Some (tl line) \<Longrightarrow> verifyRemovals doc (idx + 1) rest =
       (\<forall>k<length (checkedValues rest). at_index doc (idx + 1 + k) = Some (checkedValues rest ! k))"
      by (auto simp: isChecked_def)
    show ?thesis
      unfolding v cv using ih by (auto simp: all_less_Suc_shift)
  qed
qed

lemma verifyRemovals_no_additions:
  "verifyRemovals doc m (filter (\<lambda>l. \<not> isAddition l) b) = verifyRemovals doc m b"
proof -
  have "filter isChecked (filter (\<lambda>l. \<not> isAddition l) b) = filter isChecked b"
    by (induction b) (auto simp: isChecked_def isAddition_def)
  then have "checkedValues (filter (\<lambda>l. \<not> isAddition l) b) = checkedValues b"
    by (simp add: checkedValues_def)
  then show ?thesis by (simp add: verifyRemovals_walk)
qed

text \<open>
  C1. \<open>verifyRemovals\<close> holds exactly when, for every \<open>k\<close>, the \<open>k\<close>-th context or
  deletion line of the body (in body order) has as its value the document line at
  \<open>matchedIndex + k\<close>, a line that must exist: the cursor starts at the matched index and
  moves by one after each such line, and one mismatch makes the result false. Addition
  lines take no part: removing them all from the body leaves the result as it is.
\<close>

theorem verifyRemovals_spec:
  "verifyRemovals doc m b =
     (\<forall>k < length (checkedValues b). at_index doc (m + k) = Some (checkedValues b ! k))
   \<and> verifyRemovals doc m (filter (\<lambda>l. \<not> isAddition l) b) = verifyRemovals doc m b"
  using verifyRemovals_walk verifyRemovals_no_additions by blast

theorem verifyRemovals_spec_witness:
  "verifyRemovals [''x'', ''a'', ''b'', ''c''] 1 ['' a'', ''+N'', ''-b'', '''', ''+M'']
   \<and> checkedValues ['' a'', ''+N'', ''-b'', '''', ''+M''] = [''a'', ''b'']
   \<and> at_index [''x'', ''a'', ''b'', ''c''] (1 + 1) = Some (checkedValues ['' a'', ''+N'', ''-b'', '''', ''+M''] ! 1)
   \<and> \<not> verifyRemovals [''x'', ''a'', ''Z'', ''c''] 1 ['' a'', ''+N'', ''-b'', '''', ''+M'']"
  using verifyRemovals_spec [of "[''x'', ''a'', ''b'', ''c'']" 1 "['' a'', ''+N'', ''-b'', '''', ''+M'']"]
  by (simp add: checkedValues_def isChecked_def at_index_def)

lemma verifyRemovals_past_end_aux:
  assumes "oldBlockOf b \<noteq> []" and "length doc < m + length (oldBlockOf b)"
  shows "\<not> verifyRemovals doc m b"
proof -
  from assms have pos: "0 < length (checkedValues b)" and
    "length doc \<le> m + (length (checkedValues b) - 1)" by (auto simp: oldBlockOf_checked)
  then have "at_index doc (m + (length (checkedValues b) - 1)) = None" by (simp add: at_index_def)
  with pos show ?thesis unfolding verifyRemovals_walk
    by (metis diff_less option.distinct(1) zero_less_one)
qed

lemma verifyRemovals_cursor_past_end:
  assumes "isChecked l" and "length doc \<le> m + length (checkedValues pre)"
  shows "\<not> verifyRemovals doc m (pre @ l # post)"
proof -
  let ?b = "pre @ l # post"
  from assms(1) have cv: "checkedValues ?b = checkedValues pre @ tl l # checkedValues post"
    by (simp add: checkedValues_def)
  then have "length (checkedValues pre) < length (checkedValues ?b)" by simp
  moreover from assms(2) have "at_index doc (m + length (checkedValues pre)) = None"
    by (simp add: at_index_def)
  ultimately show ?thesis unfolding verifyRemovals_walk by (metis option.distinct(1))
qed

text \<open>
  C9. \<open>verifyRemovals\<close> is a total function, and a read past the last document line
  counts as a mismatch: when a context or deletion line is reached with the cursor at or
  past the end of the document the result is false; so a window that reaches past the
  end of the document is rejected when the old block is not empty, and
  \<open>applySingleHunk\<close> then returns nothing.
\<close>

theorem verifyRemovals_past_end:
  "(isChecked l \<and> length doc \<le> m + length (checkedValues pre)
      \<longrightarrow> verifyRemovals doc m (pre @ l # post) = False)
   \<and> (oldBlockOf b \<noteq> [] \<and> length doc < m + length (oldBlockOf b)
      \<longrightarrow> verifyRemovals doc m b = False)
   \<and> (oldBlockOf (body h) \<noteq> [] \<and> findBestWindow (split_lines t) (oldBlockOf (body h)) s = Some m
        \<and> length (split_lines t) < m + length (oldBlockOf (body h))
      \<longrightarrow> applySingleHunk t h s = None)"
  using verifyRemovals_cursor_past_end [of l doc m pre post]
    verifyRemovals_past_end_aux [of b doc m]
    verifyRemovals_past_end_aux [of "body h" "split_lines t" m]
  by (auto simp: applySingleHunk_def Let_def)


theorem verifyRemovals_past_end_witness:
  "verifyRemovals [''a'', ''b''] 1 ['' b'', ''-c'', ''+d''] = False
   \<and> findBestWindow (split_lines (''a'' @ [LF] @ ''b'')) (oldBlockOf ['' b'', ''-c'', ''+d'']) 0 = Some 1
   \<and> applySingleHunk (''a'' @ [LF] @ ''b'')
        \<lparr>header = ''@@ -2,2 +2,2 @@'', body = ['' b'', ''-c'', ''+d''], oldStart = 2,
          oldCount = Some 2, newStart = 2, newCount = Some 2\<rparr> 0 = None"
proof -
  let ?h = "\<lparr>header = ''@@ -2,2 +2,2 @@'', body = ['' b'', ''-c'', ''+d''], oldStart = 2,
             oldCount = Some 2, newStart = 2, newCount = Some 2\<rparr>"
  have l: "split_lines [CHR ''a'', LF, CHR ''b''] = [''a'', ''b'']"
    by (simp add: split_lines_def LF_def)
  have ob: "oldBlockOf ['' b'', ''-c'', ''+d''] = [''b'', ''c'']"
    by (simp add: oldBlockOf_def)
  have f: "findBestWindow [''a'', ''b''] [''b'', ''c''] 0 = Some 1"
    by (simp add: findBestWindow_def scoreSequence_def windowLoop.simps scoreLoop.simps)
  from verifyRemovals_past_end [where l = "''-c''" and doc = "[''a'', ''b'']" and m = 1
      and pre = "['' b'']" and post = "[''+d'']" and b = "['' b'', ''-c'', ''+d'']"
      and h = ?h and t = "''a'' @ [LF] @ ''b''" and s = 0]
  show ?thesis
    by (simp add: l ob f isChecked_def checkedValues_def at_index_def)
qed

section \<open>Properties of the sequence matcher\<close>

lemma scoreLoop_count:
  "scoreLoop w t n i s = s + length (filter (\<lambda>j. w ! j = t ! j) [i ..< n])"
proof (induction w t n i s rule: scoreLoop.induct)
  case (1 w t n i s)
  show ?case
  proof (cases "i < n")
    case True
    then have "[i ..< n] = i # [i + 1 ..< n]" by (simp add: upt_conv_Cons)
    with True 1 show ?thesis by (simp add: scoreLoop.simps [of w t n i s])
  next
    case False
    then show ?thesis by (simp add: scoreLoop.simps [of w t n i s])
  qed
qed

lemma scoreSequence_window:
  "scoreSequence (take (length old) (drop i doc)) old = windowScore doc old i"
proof -
  let ?w = "take (length old) (drop i doc)"
  let ?n = "min (length ?w) (length old)"
  have n: "?n = min (min (length old) (length doc - i)) (length old)" by simp
  have "filter (\<lambda>j. ?w ! j = old ! j) [0 ..< ?n] = filter (\<lambda>j. doc ! (i + j) = old ! j) [0 ..< ?n]"
    by (rule filter_cong) auto
  then show ?thesis
    unfolding scoreSequence_def windowScore_def scoreLoop_count n [symmetric] by simp
qed

lemma windowScore_le: "windowScore doc old i \<le> length old"
proof -
  have "windowScore doc old i \<le> length [0 ..< min (min (length old) (length doc - i)) (length old)]"
    unfolding windowScore_def by (rule length_filter_le)
  then show ?thesis by simp
qed

lemma windowLoop_spec:
  "(windowLoop doc old i bi bs = bi \<and> (\<forall>j. i \<le> j \<and> j \<le> length doc \<longrightarrow> int (windowScore doc old j) \<le> bs))
   \<or> (\<exists>m. windowLoop doc old i bi bs = int m \<and> i \<le> m \<and> m \<le> length doc \<and> bs < int (windowScore doc old m)
        \<and> (\<forall>j. i \<le> j \<and> j < m \<longrightarrow> windowScore doc old j < windowScore doc old m)
        \<and> (\<forall>j. i \<le> j \<and> j \<le> length doc \<longrightarrow> windowScore doc old j \<le> windowScore doc old m))"
  (is "?P i bi bs")
proof (induction doc old i bi bs rule: windowLoop.induct)
  case (1 doc old i bi bs)
  let ?sc = "windowScore doc old"
  note sw = scoreSequence_window [of old _ doc]
  show ?case
  proof (cases "i \<le> length doc")
    case False
    then have "windowLoop doc old i bi bs = bi" by (simp add: windowLoop.simps [of doc old i bi bs])
    with False show ?thesis by auto
  next
    case le: True
    show ?thesis
    proof (cases "bs < int (?sc i)")
      case better: True
      show ?thesis
      proof (cases "?sc i = length old")
        case True
        with le better have r: "windowLoop doc old i bi bs = int i"
          by (simp add: sw windowLoop.simps [of doc old i bi bs])
        have "\<forall>j. windowScore doc old j \<le> windowScore doc old i"
          using True windowScore_le by simp
        with r le better show ?thesis by auto
      next
        case False
        with le better have r: "windowLoop doc old i bi bs = windowLoop doc old (i + 1) (int i) (int (?sc i))"
          by (simp add: sw windowLoop.simps [of doc old i bi bs])
        from 1(1) [unfolded sw] le better False
        have ih: "(windowLoop doc old (i + 1) (int i) (int (?sc i)) = int i \<and> (\<forall>j. i + 1 \<le> j \<and> j \<le> length doc \<longrightarrow> int (windowScore doc old j) \<le> int (?sc i)))
   \<or> (\<exists>m. windowLoop doc old (i + 1) (int i) (int (?sc i)) = int m \<and> i + 1 \<le> m \<and> m \<le> length doc \<and> int (?sc i) < int (windowScore doc old m)
        \<and> (\<forall>j. i + 1 \<le> j \<and> j < m \<longrightarrow> windowScore doc old j < windowScore doc old m)
        \<and> (\<forall>j. i + 1 \<le> j \<and> j \<le> length doc \<longrightarrow> windowScore doc old j \<le> windowScore doc old m))"
          by simp
        then show ?thesis
        proof
          assume a: "windowLoop doc old (i + 1) (int i) (int (?sc i)) = int i \<and> (\<forall>j. i + 1 \<le> j \<and> j \<le> length doc \<longrightarrow> int (windowScore doc old j) \<le> int (?sc i))"
          then have "\<forall>j. i \<le> j \<and> j \<le> length doc \<longrightarrow> windowScore doc old j \<le> ?sc i"
            by (metis Suc_eq_plus1 Suc_leI le_neq_implies_less of_nat_le_iff order_refl)
          with a r le better show ?thesis by auto
        next
          assume "\<exists>m. windowLoop doc old (i + 1) (int i) (int (?sc i)) = int m \<and> i + 1 \<le> m \<and> m \<le> length doc \<and> int (?sc i) < int (windowScore doc old m)
        \<and> (\<forall>j. i + 1 \<le> j \<and> j < m \<longrightarrow> windowScore doc old j < windowScore doc old m)
        \<and> (\<forall>j. i + 1 \<le> j \<and> j \<le> length doc \<longrightarrow> windowScore doc old j \<le> windowScore doc old m)"
          then obtain m where m: "windowLoop doc old (i + 1) (int i) (int (?sc i)) = int m" "i + 1 \<le> m" "m \<le> length doc" "?sc i < ?sc m"
             "\<forall>j. i + 1 \<le> j \<and> j < m \<longrightarrow> ?sc j < ?sc m"
             "\<forall>j. i + 1 \<le> j \<and> j \<le> length doc \<longrightarrow> ?sc j \<le> ?sc m" by auto
          have lo: "\<forall>j. i \<le> j \<and> j < m \<longrightarrow> ?sc j < ?sc m"
            using m(4,5) by (metis Suc_eq_plus1 Suc_leI le_neq_implies_less)
          have hi: "\<forall>j. i \<le> j \<and> j \<le> length doc \<longrightarrow> ?sc j \<le> ?sc m"
            using m(4,6) by (metis Suc_eq_plus1 Suc_leI le_neq_implies_less less_imp_le)
          from better m(4) have "bs < int (?sc m)" by linarith
          with r m(1,2,3) lo hi show ?thesis by auto
        qed
      qed
    next
      case worse: False
      with le have r: "windowLoop doc old i bi bs = windowLoop doc old (i + 1) bi bs"
        by (simp add: sw windowLoop.simps [of doc old i bi bs])
      from 1(2) [unfolded sw] le worse
      have ih: "(windowLoop doc old (i + 1) bi bs = bi \<and> (\<forall>j. i + 1 \<le> j \<and> j \<le> length doc \<longrightarrow> int (windowScore doc old j) \<le> bs))
   \<or> (\<exists>m. windowLoop doc old (i + 1) bi bs = int m \<and> i + 1 \<le> m \<and> m \<le> length doc \<and> bs < int (windowScore doc old m)
        \<and> (\<forall>j. i + 1 \<le> j \<and> j < m \<longrightarrow> windowScore doc old j < windowScore doc old m)
        \<and> (\<forall>j. i + 1 \<le> j \<and> j \<le> length doc \<longrightarrow> windowScore doc old j \<le> windowScore doc old m))"
        by simp
      then show ?thesis
      proof
        assume a: "windowLoop doc old (i + 1) bi bs = bi \<and> (\<forall>j. i + 1 \<le> j \<and> j \<le> length doc \<longrightarrow> int (windowScore doc old j) \<le> bs)"
        then have "\<forall>j. i \<le> j \<and> j \<le> length doc \<longrightarrow> int (?sc j) \<le> bs"
          using worse by (metis Suc_eq_plus1 Suc_leI le_neq_implies_less not_less)
        with a r show ?thesis by auto
      next
        assume "\<exists>m. windowLoop doc old (i + 1) bi bs = int m \<and> i + 1 \<le> m \<and> m \<le> length doc \<and> bs < int (windowScore doc old m)
        \<and> (\<forall>j. i + 1 \<le> j \<and> j < m \<longrightarrow> windowScore doc old j < windowScore doc old m)
        \<and> (\<forall>j. i + 1 \<le> j \<and> j \<le> length doc \<longrightarrow> windowScore doc old j \<le> windowScore doc old m)"
        then obtain m where m: "windowLoop doc old (i + 1) bi bs = int m" "i + 1 \<le> m" "m \<le> length doc" "bs < int (?sc m)"
             "\<forall>j. i + 1 \<le> j \<and> j < m \<longrightarrow> ?sc j < ?sc m"
             "\<forall>j. i + 1 \<le> j \<and> j \<le> length doc \<longrightarrow> ?sc j \<le> ?sc m" by auto
        from worse m(4) have im: "?sc i < ?sc m" by linarith
        have lo: "\<forall>j. i \<le> j \<and> j < m \<longrightarrow> ?sc j < ?sc m"
          using im m(5) by (metis Suc_eq_plus1 Suc_leI le_neq_implies_less)
        have hi: "\<forall>j. i \<le> j \<and> j \<le> length doc \<longrightarrow> ?sc j \<le> ?sc m"
          using im m(6) by (metis Suc_eq_plus1 Suc_leI le_neq_implies_less less_imp_le)
        with r m(1,2,3,4) lo show ?thesis by auto
      qed
    qed
  qed
qed


lemma findBestWindow_cases:
  "(findBestWindow doc old start = None \<and> length doc < start)
   \<or> (\<exists>m. findBestWindow doc old start = Some m \<and> start \<le> m \<and> m \<le> length doc
        \<and> (\<forall>j. start \<le> j \<and> j < m \<longrightarrow> windowScore doc old j < windowScore doc old m)
        \<and> (\<forall>j. start \<le> j \<and> j \<le> length doc \<longrightarrow> windowScore doc old j \<le> windowScore doc old m))"
proof -
  let ?r = "windowLoop doc old start (- 1) (- 1)"
  from windowLoop_spec [of doc old start "- 1" "- 1"]
  show ?thesis
  proof
    assume a: "?r = - 1 \<and> (\<forall>j. start \<le> j \<and> j \<le> length doc \<longrightarrow> int (windowScore doc old j) \<le> - 1)"
    have "length doc < start"
    proof (rule ccontr)
      assume "\<not> length doc < start"
      then have "start \<le> start \<and> start \<le> length doc" by simp
      with a have "int (windowScore doc old start) \<le> - 1" by blast
      then show False by simp
    qed
    with a show ?thesis by (simp add: findBestWindow_def)
  next
    assume "\<exists>m. ?r = int m \<and> start \<le> m \<and> m \<le> length doc \<and> - 1 < int (windowScore doc old m)
        \<and> (\<forall>j. start \<le> j \<and> j < m \<longrightarrow> windowScore doc old j < windowScore doc old m)
        \<and> (\<forall>j. start \<le> j \<and> j \<le> length doc \<longrightarrow> windowScore doc old j \<le> windowScore doc old m)"
    then obtain m where m: "?r = int m" "start \<le> m" "m \<le> length doc"
        "\<forall>j. start \<le> j \<and> j < m \<longrightarrow> windowScore doc old j < windowScore doc old m"
        "\<forall>j. start \<le> j \<and> j \<le> length doc \<longrightarrow> windowScore doc old j \<le> windowScore doc old m"
      by blast
    from m(1) have "findBestWindow doc old start = Some m" by (simp add: findBestWindow_def)
    with m show ?thesis by blast
  qed
qed

lemma findBestWindow_Some:
  assumes "findBestWindow doc old start = Some m"
  shows "start \<le> m" and "m \<le> length doc"
    and "\<forall>j. start \<le> j \<and> j < m \<longrightarrow> windowScore doc old j < windowScore doc old m"
    and "\<forall>j. start \<le> j \<and> j \<le> length doc \<longrightarrow> windowScore doc old j \<le> windowScore doc old m"
  using findBestWindow_cases [of doc old start] assms by auto

lemma findBestWindow_None: "(findBestWindow doc old start = None) = (length doc < start)"
  using findBestWindow_cases [of doc old start] by auto

lemma findBestWindow_first_perfect:
  assumes "start \<le> i" "i \<le> length doc" "windowScore doc old i = length old"
    and "\<forall>j. start \<le> j \<and> j < i \<longrightarrow> windowScore doc old j \<noteq> length old"
  shows "findBestWindow doc old start = Some i"
proof -
  from assms(1,2) have "findBestWindow doc old start \<noteq> None" by (simp add: findBestWindow_None)
  then obtain m where m: "findBestWindow doc old start = Some m" by auto
  note s = findBestWindow_Some [OF m]
  from s(4) assms(1,2,3) have "length old \<le> windowScore doc old m" by metis
  with windowScore_le [of doc old m] have pm: "windowScore doc old m = length old" by simp
  have "\<not> i < m" using s(3) assms(1,3) pm by (metis less_irrefl)
  moreover have "\<not> m < i" using assms(4) s(1) pm by blast
  ultimately have "m = i" by simp
  with m show ?thesis by simp
qed

text \<open>
  C2. The matcher reports not-found exactly when the search start lies beyond the
  document's length, so when no candidate \<open>searchStart \<le> i \<le> length\<close> exists, and never
  for a low score. Otherwise it returns a candidate of that range whose score is the
  greatest among all candidates and strictly greater than the score of every earlier
  candidate (the lowest index of the greatest score); the first candidate with the
  perfect score \<open>length oldBlock\<close> is returned; the score the code computes for the window
  at \<open>i\<close> is the count of the positions of the overlap where document and old block
  agree; and for an empty old block the chosen index is the search start.
\<close>

theorem findBestWindow_spec:
  "(findBestWindow doc old start = None) = (length doc < start)
   \<and> (\<forall>m. findBestWindow doc old start = Some m \<longrightarrow>
         start \<le> m \<and> m \<le> length doc
         \<and> (\<forall>j. start \<le> j \<and> j \<le> length doc \<longrightarrow> windowScore doc old j \<le> windowScore doc old m)
         \<and> (\<forall>j. start \<le> j \<and> j < m \<longrightarrow> windowScore doc old j < windowScore doc old m))
   \<and> (\<forall>i. start \<le> i \<and> i \<le> length doc \<and> windowScore doc old i = length old
           \<and> (\<forall>j. start \<le> j \<and> j < i \<longrightarrow> windowScore doc old j \<noteq> length old)
         \<longrightarrow> findBestWindow doc old start = Some i)
   \<and> (\<forall>i. scoreSequence (take (length old) (drop i doc)) old = windowScore doc old i)
   \<and> (old = [] \<and> start \<le> length doc \<longrightarrow> findBestWindow doc old start = Some start)"
proof -
  have e: "old = [] \<and> start \<le> length doc \<longrightarrow> findBestWindow doc old start = Some start"
  proof
    assume a: "old = [] \<and> start \<le> length doc"
    then have "windowScore doc old start = length old" by (simp add: windowScore_def)
    with a show "findBestWindow doc old start = Some start"
      using findBestWindow_first_perfect [of start start doc old] by simp
  qed
  show ?thesis
    using findBestWindow_None [of doc old start] findBestWindow_Some [of doc old start]
      findBestWindow_first_perfect [of start _ doc old] scoreSequence_window [of old _ doc] e
    by blast
qed

lemma example_scores:
  "windowScore [''x'', ''a'', ''c'', ''a'', ''b''] [''a'', ''b''] 0 = 0"
  "windowScore [''x'', ''a'', ''c'', ''a'', ''b''] [''a'', ''b''] 1 = 1"
  "windowScore [''x'', ''a'', ''c'', ''a'', ''b''] [''a'', ''b''] 2 = 0"
  "windowScore [''x'', ''a'', ''c'', ''a'', ''b''] [''a'', ''b''] 3 = 2"
  by (simp_all add: windowScore_def eval_nat_numeral)

theorem findBestWindow_spec_witness:
  "findBestWindow [''x'', ''a'', ''c'', ''a'', ''b''] [''a'', ''b''] 0 = Some 3
   \<and> windowScore [''x'', ''a'', ''c'', ''a'', ''b''] [''a'', ''b''] 4
       \<le> windowScore [''x'', ''a'', ''c'', ''a'', ''b''] [''a'', ''b''] 3
   \<and> findBestWindow [''x'', ''y''] [] 2 = Some 2
   \<and> findBestWindow [''x'', ''y''] [''a''] 3 = None"
proof -
  let ?doc = "[''x'', ''a'', ''c'', ''a'', ''b'']" and ?old = "[''a'', ''b'']"
  have early: "\<forall>j. 0 \<le> j \<and> j < 3 \<longrightarrow> windowScore ?doc ?old j \<noteq> length ?old"
  proof (intro allI impI)
    fix j :: nat assume "0 \<le> j \<and> j < 3"
    then have "j = 0 \<or> j = 1 \<or> j = 2" by auto
    then show "windowScore ?doc ?old j \<noteq> length ?old" using example_scores by auto
  qed
  note spec = findBestWindow_spec [of ?doc ?old 0]
  from example_scores(4) have p: "0 \<le> (3::nat) \<and> 3 \<le> length ?doc \<and> windowScore ?doc ?old 3 = length ?old"
    by simp
  from spec p early have a: "findBestWindow ?doc ?old 0 = Some 3"
    by blast
  have "0 \<le> (4::nat) \<and> 4 \<le> length ?doc" by simp
  with spec a have "windowScore ?doc ?old 4 \<le> windowScore ?doc ?old 3" by blast
  moreover from findBestWindow_spec [of "[''x'', ''y'']" "[]" 2]
  have "findBestWindow [''x'', ''y''] [] 2 = Some 2" by simp
  moreover from findBestWindow_spec [of "[''x'', ''y'']" "[''a'']" 3]
  have "findBestWindow [''x'', ''y''] [''a''] 3 = None" by simp
  ultimately show ?thesis using a by (intro conjI)
qed

section \<open>Properties of the hunk applier\<close>

lemma splitOn_no_LF: "LF \<notin> set l \<Longrightarrow> splitOn cur l = [cur @ l]"
  by (induction l arbitrary: cur) auto

lemma splitOn_app: "LF \<notin> set l \<Longrightarrow> splitOn cur (l @ LF # s) = (cur @ l) # splitOn [] s"
  by (induction l arbitrary: cur) auto

lemma split_join:
  "ls \<noteq> [] \<Longrightarrow> \<forall>l \<in> set ls. LF \<notin> set l \<Longrightarrow> split_lines (join_lines ls) = ls"
proof (induction ls rule: join_lines.induct)
  case (3 l m ls)
  then show ?case using splitOn_app [of l "[]" "join_lines (m # ls)"]
    by (simp add: split_lines_def)
qed (auto simp: split_lines_def splitOn_no_LF)

lemma split_join_empty: "split_lines (join_lines []) = [[]]"
  by (simp add: split_lines_def)

lemma splitOn_no_LF_inside: "LF \<notin> set cur \<Longrightarrow> l \<in> set (splitOn cur s) \<Longrightarrow> LF \<notin> set l"
  by (induction cur s rule: splitOn.induct) (auto split: if_splits)

lemma split_lines_no_LF: "l \<in> set (split_lines s) \<Longrightarrow> LF \<notin> set l"
  using splitOn_no_LF_inside [of "[]" l s] by (simp add: split_lines_def)

lemma splitOn_ne: "splitOn cur s \<noteq> []"
  by (induction cur s rule: splitOn.induct) auto

lemma split_lines_ne: "split_lines s \<noteq> []"
  by (simp add: split_lines_def splitOn_ne)

lemma applySingleHunk_Some:
  assumes "applySingleHunk t h s = Some r"
  shows "\<exists>m. findBestWindow (split_lines t) (oldBlockOf (body h)) s = Some m
     \<and> verifyRemovals (split_lines t) m (body h)
     \<and> content r = join_lines (take m (split_lines t) @ newBlockOf (body h) @ drop (m + length (oldBlockOf (body h))) (split_lines t))
     \<and> lastAppliedLine r = m + length (newBlockOf (body h))"
  using assms by (auto simp: applySingleHunk_def Let_def split: option.splits if_splits)

lemma verified_window_inside:
  assumes "findBestWindow doc (oldBlockOf b) s = Some m" and "verifyRemovals doc m b"
  shows "m + length (oldBlockOf b) \<le> length doc"
proof (cases "oldBlockOf b = []")
  case True
  with findBestWindow_Some(2) [OF assms(1)] show ?thesis by simp
next
  case False
  with verifyRemovals_past_end_aux [of b doc m] assms(2) show ?thesis by (metis not_less)
qed

lemma verified_window_old:
  assumes "verifyRemovals doc m b"
  shows "take (length (oldBlockOf b)) (drop m doc) = oldBlockOf b"
proof (rule nth_equalityI)
  have "oldBlockOf b \<noteq> [] \<Longrightarrow> m + length (oldBlockOf b) \<le> length doc"
    using verifyRemovals_past_end_aux [of b doc m] assms by (metis not_less)
  then show len: "length (take (length (oldBlockOf b)) (drop m doc)) = length (oldBlockOf b)"
    by (cases "oldBlockOf b = []") auto
  fix i assume "i < length (take (length (oldBlockOf b)) (drop m doc))"
  with len have i: "i < length (checkedValues b)" by (simp add: oldBlockOf_checked)
  with assms have "at_index doc (m + i) = Some (checkedValues b ! i)"
    by (simp add: verifyRemovals_walk)
  then have "m + i < length doc" "doc ! (m + i) = checkedValues b ! i"
    by (auto simp: at_index_def split: if_splits)
  with i show "take (length (oldBlockOf b)) (drop m doc) ! i = oldBlockOf b ! i"
    by (simp add: oldBlockOf_checked)
qed

text \<open>
  C3. When \<open>applySingleHunk\<close> succeeds, the matcher has chosen an index \<open>m\<close>, the range
  of \<open>length oldBlock\<close> lines from \<open>m\<close> lies inside the document and holds the old block,
  the returned text is the join of the document lines before \<open>m\<close>, the new block, and the
  document lines from \<open>m + length oldBlock\<close> on, and the returned cursor is
  \<open>m + length newBlock\<close>. The old block is the values of the context and deletion lines,
  the new block those of the context and addition lines.
\<close>

theorem applySingleHunk_splice:
  assumes "applySingleHunk t h s = Some r"
  shows "\<exists>m. findBestWindow (split_lines t) (oldBlockOf (body h)) s = Some m
     \<and> m + length (oldBlockOf (body h)) \<le> length (split_lines t)
     \<and> take (length (oldBlockOf (body h))) (drop m (split_lines t)) = oldBlockOf (body h)
     \<and> content r = join_lines (take m (split_lines t) @ newBlockOf (body h)
                                 @ drop (m + length (oldBlockOf (body h))) (split_lines t))
     \<and> lastAppliedLine r = m + length (newBlockOf (body h))
     \<and> oldBlockOf (body h) = checkedValues (body h)
     \<and> newBlockOf (body h) = insertedValues (body h)"
proof -
  from applySingleHunk_Some [OF assms] obtain m where
    m: "findBestWindow (split_lines t) (oldBlockOf (body h)) s = Some m"
       "verifyRemovals (split_lines t) m (body h)"
       "content r = join_lines (take m (split_lines t) @ newBlockOf (body h) @ drop (m + length (oldBlockOf (body h))) (split_lines t))"
       "lastAppliedLine r = m + length (newBlockOf (body h))" by blast
  from verified_window_inside [OF m(1,2)] verified_window_old [OF m(2)] m
  show ?thesis by (auto simp: oldBlockOf_checked newBlockOf_inserted)
qed

theorem applySingleHunk_splice_witness:
  "applySingleHunk [CHR ''x'', LF, CHR ''a'', LF, CHR ''b'', LF, CHR ''c'', LF]
     \<lparr>header = ''@@ -1,3 +1,3 @@'', body = ['' a'', ''-b'', ''+B'', '' c''], oldStart = 1,
       oldCount = Some 3, newStart = 1, newCount = Some 3\<rparr> 0
   = Some \<lparr>content = [CHR ''x'', LF, CHR ''a'', LF, CHR ''B'', LF, CHR ''c'', LF], lastAppliedLine = 4\<rparr>
   \<and> (\<exists>m. findBestWindow (split_lines [CHR ''x'', LF, CHR ''a'', LF, CHR ''b'', LF, CHR ''c'', LF])
              (oldBlockOf ['' a'', ''-b'', ''+B'', '' c'']) 0 = Some m
          \<and> 4 = m + length (newBlockOf ['' a'', ''-b'', ''+B'', '' c'']))"
proof -
  let ?t = "[CHR ''x'', LF, CHR ''a'', LF, CHR ''b'', LF, CHR ''c'', LF]"
  let ?b = "['' a'', ''-b'', ''+B'', '' c'']"
  let ?h = "\<lparr>header = ''@@ -1,3 +1,3 @@'', body = ?b, oldStart = 1,
       oldCount = Some 3, newStart = 1, newCount = Some 3\<rparr>"
  let ?r = "\<lparr>content = [CHR ''x'', LF, CHR ''a'', LF, CHR ''B'', LF, CHR ''c'', LF], lastAppliedLine = 4\<rparr>"
  have l: "split_lines ?t = [''x'', ''a'', ''b'', ''c'', []]"
    by (simp add: split_lines_def LF_def)
  have ob: "oldBlockOf ?b = [''a'', ''b'', ''c'']"
    by (simp add: oldBlockOf_def)
  have nb: "newBlockOf ?b = [''a'', ''B'', ''c'']"
    by (simp add: newBlockOf_def)
  have f: "findBestWindow [''x'', ''a'', ''b'', ''c'', []] [''a'', ''b'', ''c''] 0 = Some 1"
    by (simp add: findBestWindow_def scoreSequence_def windowLoop.simps scoreLoop.simps)
  have a: "applySingleHunk ?t ?h 0 = Some ?r"
    by (simp add: applySingleHunk_def l ob nb f at_index_def)
  from applySingleHunk_splice [OF a]
  have "\<exists>m. findBestWindow (split_lines ?t) (oldBlockOf (body ?h)) 0 = Some m
          \<and> lastAppliedLine ?r = m + length (newBlockOf (body ?h))"
    by blast
  then have "\<exists>m. findBestWindow (split_lines ?t) (oldBlockOf ?b) 0 = Some m
          \<and> 4 = m + length (newBlockOf ?b)"
    by (simp only: Hunk.simps Applied.simps)
  with a show ?thesis by (intro conjI)
qed

lemma checkedValues_ignored:
  "isIgnored l \<Longrightarrow> checkedValues (pre @ l # post) = checkedValues (pre @ post)"
  by (simp add: checkedValues_def isIgnored_def isChecked_def)

lemma insertedValues_ignored:
  "isIgnored l \<Longrightarrow> insertedValues (pre @ l # post) = insertedValues (pre @ post)"
  by (simp add: insertedValues_def isIgnored_def isInserted_def)

lemma applySingleHunk_blocks:
  assumes "checkedValues (body h) = checkedValues (body h')"
    and "insertedValues (body h) = insertedValues (body h')"
  shows "applySingleHunk t h s = applySingleHunk t h' s"
proof -
  from assms(1) have v: "verifyRemovals doc m (body h) = verifyRemovals doc m (body h')" for doc m
    by (simp add: verifyRemovals_walk)
  show ?thesis
    unfolding applySingleHunk_def oldBlockOf_checked newBlockOf_inserted v assms by (rule refl)
qed

text \<open>
  C10. A body line whose first unit is neither a space, \<open>-\<close> nor \<open>+\<close> is ignored:
  with or without it the old and new blocks are the same, the verifier gives the same
  answer at every document and index, and \<open>applySingleHunk\<close> gives the same result.
\<close>

theorem ignored_lines:
  assumes "isIgnored l"
  shows "buildBlocks (pre @ l # post) [] [] = buildBlocks (pre @ post) [] []
    \<and> verifyRemovals doc m (pre @ l # post) = verifyRemovals doc m (pre @ post)
    \<and> applySingleHunk t (h\<lparr>body := pre @ l # post\<rparr>) s = applySingleHunk t (h\<lparr>body := pre @ post\<rparr>) s"
  using checkedValues_ignored [OF assms, of pre post] insertedValues_ignored [OF assms, of pre post]
    applySingleHunk_blocks [of "h\<lparr>body := pre @ l # post\<rparr>" "h\<lparr>body := pre @ post\<rparr>" t s]
  by (simp add: buildBlocks_acc verifyRemovals_walk)

theorem ignored_lines_witness:
  "isIgnored (CHR 0x5C # '' No newline at end of file'')
   \<and> applySingleHunk [CHR ''a'', LF, CHR ''b'']
         \<lparr>header = ''@@ -1,2 +1,2 @@'',
           body = ['' a'', ''-b'', CHR 0x5C # '' No newline at end of file'', ''+B''],
           oldStart = 1, oldCount = Some 2, newStart = 1, newCount = Some 2\<rparr> 0
       = Some \<lparr>content = [CHR ''a'', LF, CHR ''B''], lastAppliedLine = 2\<rparr>"
proof -
  let ?l = "CHR 0x5C # '' No newline at end of file''"
  let ?h = "\<lparr>header = ''@@ -1,2 +1,2 @@'', body = [], oldStart = 1, oldCount = Some 2,
             newStart = 1, newCount = Some 2\<rparr>"
  have i: "isIgnored ?l" by (simp add: isIgnored_def)
  have l: "split_lines [CHR ''a'', LF, CHR ''b''] = [''a'', ''b'']"
    by (simp add: split_lines_def LF_def)
  have ob: "oldBlockOf ['' a'', ''-b'', ''+B''] = [''a'', ''b'']"
    by (simp add: oldBlockOf_def)
  have nb: "newBlockOf ['' a'', ''-b'', ''+B''] = [''a'', ''B'']"
    by (simp add: newBlockOf_def)
  have f: "findBestWindow [''a'', ''b''] [''a'', ''b''] 0 = Some 0"
    by (simp add: findBestWindow_def scoreSequence_def windowLoop.simps scoreLoop.simps)
  have a: "applySingleHunk [CHR ''a'', LF, CHR ''b''] (?h\<lparr>body := ['' a'', ''-b''] @ [''+B'']\<rparr>) 0
           = Some \<lparr>content = [CHR ''a'', LF, CHR ''B''], lastAppliedLine = 2\<rparr>"
    by (simp add: applySingleHunk_def l ob nb f at_index_def)
  from ignored_lines [OF i, of "['' a'', ''-b'']" "[''+B'']" "[]" 0 "[CHR ''a'', LF, CHR ''b'']" ?h 0]
  have "applySingleHunk [CHR ''a'', LF, CHR ''b''] (?h\<lparr>body := ['' a'', ''-b''] @ ?l # [''+B'']\<rparr>) 0
        = applySingleHunk [CHR ''a'', LF, CHR ''b''] (?h\<lparr>body := ['' a'', ''-b''] @ [''+B'']\<rparr>) 0"
    by blast
  with a i show ?thesis by simp
qed

section \<open>Properties of the patch orchestrator\<close>

lemma applyHunks_append:
  "applyHunks t c (pre @ post) =
     (case applyHunks t c pre of Inl e \<Rightarrow> Inl e
      | Inr st \<Rightarrow> applyHunks (content st) (lastAppliedLine st) post)"
  by (induction pre arbitrary: t c) (auto split: option.splits)

lemma applyHunks_Inl:
  "(applyHunks t c hs = Inl e) =
     (\<exists>pre h post st. hs = pre @ h # post \<and> applyHunks t c pre = Inr st
        \<and> applySingleHunk (content st) h (lastAppliedLine st) = None
        \<and> e = HunkApplicationFailed (header h))"
proof (induction hs arbitrary: t c)
  case Nil
  then show ?case by simp
next
  case (Cons a hs)
  show ?case
  proof (cases "applySingleHunk t a c")
    case None
    show ?thesis
    proof
      assume "applyHunks t c (a # hs) = Inl e"
      with None have "e = HunkApplicationFailed (header a)" by simp
      with None show "\<exists>pre h post st. a # hs = pre @ h # post \<and> applyHunks t c pre = Inr st
        \<and> applySingleHunk (content st) h (lastAppliedLine st) = None
        \<and> e = HunkApplicationFailed (header h)"
        by (intro exI [of _ "[]"] exI [of _ a] exI [of _ hs] exI [of _ "\<lparr>content = t, lastAppliedLine = c\<rparr>"]) simp
    next
      assume "\<exists>pre h post st. a # hs = pre @ h # post \<and> applyHunks t c pre = Inr st
        \<and> applySingleHunk (content st) h (lastAppliedLine st) = None
        \<and> e = HunkApplicationFailed (header h)"
      then obtain pre h post st where p: "a # hs = pre @ h # post" "applyHunks t c pre = Inr st"
         "applySingleHunk (content st) h (lastAppliedLine st) = None" "e = HunkApplicationFailed (header h)"
        by blast
      show "applyHunks t c (a # hs) = Inl e"
      proof (cases pre)
        case Nil
        with p None show ?thesis by simp
      next
        case (Cons x xs)
        with p(1) have "x = a" by simp
        with Cons p(2) None show ?thesis by simp
      qed
    qed
  next
    case (Some r)
    then have step: "applyHunks t c (a # hs) = applyHunks (content r) (lastAppliedLine r) hs" by simp
    show ?thesis
    proof
      assume "applyHunks t c (a # hs) = Inl e"
      with step Cons.IH [of "content r" "lastAppliedLine r"]
      obtain pre h post st where p: "hs = pre @ h # post" "applyHunks (content r) (lastAppliedLine r) pre = Inr st"
         "applySingleHunk (content st) h (lastAppliedLine st) = None" "e = HunkApplicationFailed (header h)"
        by auto
      from p(2) Some have "applyHunks t c (a # pre) = Inr st" by simp
      with p show "\<exists>pre h post st. a # hs = pre @ h # post \<and> applyHunks t c pre = Inr st
        \<and> applySingleHunk (content st) h (lastAppliedLine st) = None
        \<and> e = HunkApplicationFailed (header h)"
        by (intro exI [of _ "a # pre"] exI [of _ h] exI [of _ post] exI [of _ st]) simp
    next
      assume "\<exists>pre h post st. a # hs = pre @ h # post \<and> applyHunks t c pre = Inr st
        \<and> applySingleHunk (content st) h (lastAppliedLine st) = None
        \<and> e = HunkApplicationFailed (header h)"
      then obtain pre h post st where p: "a # hs = pre @ h # post" "applyHunks t c pre = Inr st"
         "applySingleHunk (content st) h (lastAppliedLine st) = None" "e = HunkApplicationFailed (header h)"
        by blast
      show "applyHunks t c (a # hs) = Inl e"
      proof (cases pre)
        case Nil
        with p(1,2) have "a = h" "st = \<lparr>content = t, lastAppliedLine = c\<rparr>" by auto
        with p(3) Some show ?thesis by simp
      next
        case (Cons x xs)
        with p(1) have x: "x = a" "hs = xs @ h # post" by simp_all
        with Cons p(2) Some have "applyHunks (content r) (lastAppliedLine r) xs = Inr st" by simp
        with x p(3,4) Cons.IH [of "content r" "lastAppliedLine r"] step show ?thesis by auto
      qed
    qed
  qed
qed

lemma applyHunks_snoc:
  "applyHunks t c (pre @ [h]) =
     (case applyHunks t c pre of Inl e \<Rightarrow> Inl e
      | Inr st \<Rightarrow> (case applySingleHunk (content st) h (lastAppliedLine st) of
                     None \<Rightarrow> Inl (HunkApplicationFailed (header h))
                   | Some st' \<Rightarrow> Inr st'))"
  by (simp add: applyHunks_append split: sum.splits option.splits)


text \<open>
  C4. Once the diff has parsed, \<open>applyDiffPatch\<close> fails with an error \<open>e\<close> exactly
  when the hunk list splits into hunks that all applied, in order from the normalized
  document and cursor 0, and a next hunk that \<open>applySingleHunk\<close> refuses at the state
  they left; \<open>e\<close> is then \<open>HunkApplicationFailed\<close> with that hunk's header. The hunk is
  tried once, there, and the hunks after it are never looked at. The operation succeeds
  exactly when the fold over all the hunks succeeds, and its text is the last state's,
  with the line endings restored. The fold applies each hunk to the text and cursor the
  hunk before it returned.
\<close>

theorem applyDiffPatch_first_failure:
  assumes "parseHunks (normalizeEOL rawDiff) = Inr hunks"
  shows "(applyDiffPatch doc rawDiff eol = Inl e) =
           (\<exists>pre h post st. hunks = pre @ h # post
              \<and> applyHunks (normalizeEOL doc) 0 pre = Inr st
              \<and> applySingleHunk (content st) h (lastAppliedLine st) = None
              \<and> e = HunkApplicationFailed (header h))
     \<and> (applyDiffPatch doc rawDiff eol = Inr out) =
           (\<exists>st. applyHunks (normalizeEOL doc) 0 hunks = Inr st \<and> out = restoreEOL (content st) eol)
     \<and> (\<forall>t c. applyHunks t c [] = Inr \<lparr>content = t, lastAppliedLine = c\<rparr>)
     \<and> (\<forall>t c pre h. applyHunks t c (pre @ [h]) =
           (case applyHunks t c pre of
              Inl e' \<Rightarrow> Inl e'
            | Inr st \<Rightarrow>
                (case applySingleHunk (content st) h (lastAppliedLine st) of
                   None \<Rightarrow> Inl (HunkApplicationFailed (header h))
                 | Some st' \<Rightarrow> Inr st')))"
proof -
  have a: "(applyDiffPatch doc rawDiff eol = Inl e) = (applyHunks (normalizeEOL doc) 0 hunks = Inl e)"
    using assms by (cases hunks) (auto simp: applyDiffPatch_def Let_def split: sum.splits option.splits)
  have b: "(applyDiffPatch doc rawDiff eol = Inr out) =
           (\<exists>st. applyHunks (normalizeEOL doc) 0 hunks = Inr st \<and> out = restoreEOL (content st) eol)"
    using assms by (cases hunks) (auto simp: applyDiffPatch_def Let_def split: sum.splits option.splits)
  show ?thesis
    unfolding a applyHunks_Inl [of "normalizeEOL doc" 0 hunks e] b applyHunks_snoc by simp
qed

section \<open>Properties of the hunk parser\<close>

lemma parseParts_first_bad:
  assumes "\<forall>p \<in> set pre. matchHeader (headerOf p) \<noteq> None" and "matchHeader (headerOf raw) = None"
  shows "parseParts (pre @ raw # post) acc = Inl (MalformedHunkHeader (headerOf raw))"
  using assms by (induction pre arbitrary: acc) auto

text \<open>
  C5. If the first line of any block of the diff fails the header grammar, then the
  blocks split into blocks with a good header, a first block with a bad one, and the
  rest; parsing fails with \<open>MalformedHunkHeader\<close> carrying that first bad header,
  whatever comes before or after; and \<open>applyDiffPatch\<close> gives this same error for every
  document and line-ending convention, so that no hunk is applied.
\<close>

theorem parseHunks_malformed:
  assumes "\<exists>raw \<in> set (hunkParts d). matchHeader (headerOf raw) = None"
  shows "\<exists>pre raw post. hunkParts d = pre @ raw # post
           \<and> (\<forall>p \<in> set pre. matchHeader (headerOf p) \<noteq> None)
           \<and> matchHeader (headerOf raw) = None
           \<and> parseHunks d = Inl (MalformedHunkHeader (headerOf raw))
           \<and> (\<forall>doc rawDiff eol. normalizeEOL rawDiff = d \<longrightarrow>
                 applyDiffPatch doc rawDiff eol = Inl (MalformedHunkHeader (headerOf raw)))"
proof -
  from assms obtain pre raw post where
    p: "hunkParts d = pre @ raw # post" "matchHeader (headerOf raw) = None"
       "\<forall>p \<in> set pre. matchHeader (headerOf p) \<noteq> None"
    using split_list_first_prop [of "hunkParts d" "\<lambda>raw. matchHeader (headerOf raw) = None"]
    by blast
  from parseParts_first_bad [OF p(3) p(2), of post "[]"] p(1)
  have e: "parseHunks d = Inl (MalformedHunkHeader (headerOf raw))"
    by (simp add: parseHunks_def)
  then have "\<forall>doc rawDiff eol. normalizeEOL rawDiff = d \<longrightarrow>
                 applyDiffPatch doc rawDiff eol = Inl (MalformedHunkHeader (headerOf raw))"
    by (simp add: applyDiffPatch_def)
  with p e show ?thesis by blast
qed

section \<open>Properties of the search cursor\<close>

lemma cursorTrace_bounds:
  "e \<in> set (cursorTrace t c hs) \<Longrightarrow>
     c \<le> searchStart e \<and> searchStart e \<le> matchedIndex e \<and> matchedIndex e \<le> nextCursor e"
proof (induction hs arbitrary: t c)
  case Nil
  then show ?case by simp
next
  case (Cons h hs)
  show ?case
  proof (cases "applySingleHunk t h c")
    case None
    with Cons.prems show ?thesis by simp
  next
    case (Some r)
    from applySingleHunk_Some [OF Some] obtain m where
      m: "findBestWindow (split_lines t) (oldBlockOf (body h)) c = Some m"
         "lastAppliedLine r = m + length (newBlockOf (body h))" by blast
    from findBestWindow_Some(1) [OF m(1)] have cm: "c \<le> m" .
    from Cons.prems Some m have "e = \<lparr>searchStart = c, matchedIndex = m, nextCursor = lastAppliedLine r\<rparr>
        \<or> e \<in> set (cursorTrace (content r) (lastAppliedLine r) hs)" by simp
    then show ?thesis
    proof
      assume "e = \<lparr>searchStart = c, matchedIndex = m, nextCursor = lastAppliedLine r\<rparr>"
      with cm m(2) show ?thesis by simp
    next
      assume "e \<in> set (cursorTrace (content r) (lastAppliedLine r) hs)"
      from Cons.IH [OF this] cm m(2) show ?thesis by simp
    qed
  qed
qed

lemma cursorTrace_step:
  "k < length (cursorTrace t c hs) \<Longrightarrow>
     nextCursor (cursorTrace t c hs ! k) =
       matchedIndex (cursorTrace t c hs ! k) + length (newBlockOf (body (hs ! k)))
     \<and> searchStart (cursorTrace t c hs ! k) = (if k = 0 then c else nextCursor (cursorTrace t c hs ! (k - 1)))"
proof (induction hs arbitrary: t c k)
  case Nil
  then show ?case by simp
next
  case (Cons h hs)
  show ?case
  proof (cases "applySingleHunk t h c")
    case None
    with Cons.prems show ?thesis by simp
  next
    case (Some r)
    from applySingleHunk_Some [OF Some] obtain m where
      m: "findBestWindow (split_lines t) (oldBlockOf (body h)) c = Some m"
         "lastAppliedLine r = m + length (newBlockOf (body h))" by blast
    let ?e = "\<lparr>searchStart = c, matchedIndex = m, nextCursor = lastAppliedLine r\<rparr>"
    let ?tr = "cursorTrace (content r) (lastAppliedLine r) hs"
    from Some m have tr: "cursorTrace t c (h # hs) = ?e # ?tr" by simp
    show ?thesis
    proof (cases k)
      case 0
      with tr m(2) show ?thesis by simp
    next
      case (Suc j)
      with Cons.prems tr have j: "j < length ?tr" by simp
      from Cons.IH [OF j] show ?thesis
        unfolding tr Suc by (cases j) auto
    qed
  qed
qed

lemma cursorTrace_ordered:
  "j < k \<Longrightarrow> k < length (cursorTrace t c hs) \<Longrightarrow>
     nextCursor (cursorTrace t c hs ! j) \<le> matchedIndex (cursorTrace t c hs ! k)"
proof (induction hs arbitrary: t c j k)
  case Nil
  then show ?case by simp
next
  case (Cons h hs)
  show ?case
  proof (cases "applySingleHunk t h c")
    case None
    with Cons.prems show ?thesis by simp
  next
    case (Some r)
    from applySingleHunk_Some [OF Some] obtain m where
      m: "findBestWindow (split_lines t) (oldBlockOf (body h)) c = Some m" by blast
    let ?e = "\<lparr>searchStart = c, matchedIndex = m, nextCursor = lastAppliedLine r\<rparr>"
    let ?tr = "cursorTrace (content r) (lastAppliedLine r) hs"
    from Some m have tr: "cursorTrace t c (h # hs) = ?e # ?tr" by simp
    from Cons.prems obtain k' where k': "k = Suc k'" by (cases k) auto
    with Cons.prems tr have kl: "k' < length ?tr" by simp
    show ?thesis
    proof (cases j)
      case 0
      from kl have "?tr ! k' \<in> set ?tr" by simp
      from cursorTrace_bounds [OF this] show ?thesis unfolding tr k' 0 by simp
    next
      case (Suc j')
      with Cons.prems k' have "j' < k'" by simp
      from Cons.IH [OF this kl] show ?thesis unfolding tr k' Suc by simp
    qed
  qed
qed

lemma cursorTrace_complete:
  "applyHunks t c hs = Inr st \<Longrightarrow>
     length (cursorTrace t c hs) = length hs
     \<and> lastAppliedLine st = (if hs = [] then c else nextCursor (last (cursorTrace t c hs)))"
proof (induction hs arbitrary: t c)
  case Nil
  then show ?case by auto
next
  case (Cons h hs)
  show ?case
  proof (cases "applySingleHunk t h c")
    case None
    with Cons.prems show ?thesis by simp
  next
    case (Some r)
    from applySingleHunk_Some [OF Some] obtain m where
      m: "findBestWindow (split_lines t) (oldBlockOf (body h)) c = Some m" by blast
    from Cons.prems Some have "applyHunks (content r) (lastAppliedLine r) hs = Inr st" by simp
    from Cons.IH [OF this] Some m show ?thesis by (cases hs) auto
  qed
qed

text \<open>
  C6. Along the hunks one operation applies: the search of the first starts at the
  initial cursor and the search of every later one at the cursor the hunk before it
  left; the matched index is at least the search start; the cursor left is the matched
  index plus the length of the new block, so at least the search start; the cursors never
  decrease, and a later hunk is matched at or after the cursor (the end of the inserted
  content) of every earlier hunk. When the whole fold succeeds every hunk has its step,
  and the final cursor is the last step's.
\<close>

theorem cursor_monotone:
  "(\<forall>k < length (cursorTrace t c hs).
       searchStart (cursorTrace t c hs ! k) =
         (if k = 0 then c else nextCursor (cursorTrace t c hs ! (k - 1)))
     \<and> searchStart (cursorTrace t c hs ! k) \<le> matchedIndex (cursorTrace t c hs ! k)
     \<and> nextCursor (cursorTrace t c hs ! k) =
         matchedIndex (cursorTrace t c hs ! k) + length (newBlockOf (body (hs ! k)))
     \<and> searchStart (cursorTrace t c hs ! k) \<le> nextCursor (cursorTrace t c hs ! k)
     \<and> (\<forall>j < k. nextCursor (cursorTrace t c hs ! j) \<le> nextCursor (cursorTrace t c hs ! k)
              \<and> nextCursor (cursorTrace t c hs ! j) \<le> matchedIndex (cursorTrace t c hs ! k)))
   \<and> (\<forall>st. applyHunks t c hs = Inr st \<longrightarrow>
         length (cursorTrace t c hs) = length hs
         \<and> lastAppliedLine st = (if hs = [] then c else nextCursor (last (cursorTrace t c hs))))"
proof -
  let ?tr = "cursorTrace t c hs"
  have "searchStart (?tr ! k) = (if k = 0 then c else nextCursor (?tr ! (k - 1)))
     \<and> searchStart (?tr ! k) \<le> matchedIndex (?tr ! k)
     \<and> nextCursor (?tr ! k) = matchedIndex (?tr ! k) + length (newBlockOf (body (hs ! k)))
     \<and> searchStart (?tr ! k) \<le> nextCursor (?tr ! k)
     \<and> (\<forall>j < k. nextCursor (?tr ! j) \<le> nextCursor (?tr ! k)
              \<and> nextCursor (?tr ! j) \<le> matchedIndex (?tr ! k))"
    if k: "k < length ?tr" for k
  proof -
    from k have "?tr ! k \<in> set ?tr" by simp
    from cursorTrace_bounds [OF this]
    have b: "searchStart (?tr ! k) \<le> matchedIndex (?tr ! k)"
      "matchedIndex (?tr ! k) \<le> nextCursor (?tr ! k)" by simp_all
    have o: "\<forall>j < k. nextCursor (?tr ! j) \<le> matchedIndex (?tr ! k)"
      using cursorTrace_ordered [of _ k t c hs] k by blast
    with b(2) have o': "\<forall>j < k. nextCursor (?tr ! j) \<le> nextCursor (?tr ! k)"
      using le_trans by blast
    from b o o' cursorTrace_step [OF k] show ?thesis by simp
  qed
  then show ?thesis using cursorTrace_complete [of t c hs] by blast
qed

section \<open>The examples, evaluated\<close>

lemmas eval_simps = split_lines_def hunkParts_def headerOf_def matchHeader_def optCount_def
  isDigit_def isLineTerminator_def numberOf_def digitValue_def parseHunks_def
  applySingleHunk_def oldBlockOf_def newBlockOf_def findBestWindow_def scoreSequence_def
  windowLoop.simps scoreLoop.simps at_index_def restoreEOL_def LF_def CR_def

lemma exampleDiff_normal: "normalizeEOL exampleDiff = exampleDiff"
  by (simp add: exampleDiff_def LF_def CR_def)

lemma exampleDiff_parse: "parseHunks exampleDiff = Inr [exampleHunk1, exampleHunk2]"
  by (simp add: exampleDiff_def exampleHunk1_def exampleHunk2_def eval_simps)

lemma exampleDoc_normal: "normalizeEOL exampleDoc = exampleDoc"
  by (simp add: exampleDoc_def LF_def CR_def)

lemma exampleHunk1_applies:
  "applySingleHunk exampleDoc exampleHunk1 0 = Some \<lparr>content = ''b'' @ LF # ''b'', lastAppliedLine = 1\<rparr>"
  by (simp add: exampleDoc_def exampleHunk1_def eval_simps)

lemma exampleHunk2_fails: "applySingleHunk (''b'' @ LF # ''b'') exampleHunk2 1 = None"
  by (simp add: exampleHunk2_def eval_simps)

lemma exampleHunk3_applies:
  "applySingleHunk (''b'' @ LF # ''b'') exampleHunk3 1 = Some \<lparr>content = ''b'' @ LF # ''c'', lastAppliedLine = 2\<rparr>"
  by (simp add: exampleHunk3_def eval_simps)

theorem applyDiffPatch_first_failure_witness:
  "parseHunks (normalizeEOL exampleDiff) = Inr [exampleHunk1, exampleHunk2]
   \<and> applyDiffPatch exampleDoc exampleDiff EOL_LF = Inl (HunkApplicationFailed ''@@ -2 +2 @@'')"
proof -
  let ?st = "\<lparr>content = ''b'' @ LF # ''b'', lastAppliedLine = 1\<rparr>"
  have p: "parseHunks (normalizeEOL exampleDiff) = Inr [exampleHunk1, exampleHunk2]"
    by (simp add: exampleDiff_normal exampleDiff_parse)
  have "[exampleHunk1, exampleHunk2] = [exampleHunk1] @ exampleHunk2 # []
      \<and> applyHunks (normalizeEOL exampleDoc) 0 [exampleHunk1] = Inr ?st
      \<and> applySingleHunk (content ?st) exampleHunk2 (lastAppliedLine ?st) = None
      \<and> HunkApplicationFailed ''@@ -2 +2 @@'' = HunkApplicationFailed (header exampleHunk2)"
    using exampleHunk1_applies exampleHunk2_fails
    by (simp add: exampleDoc_normal) (simp add: exampleHunk2_def)
  then have "\<exists>pre h post st. [exampleHunk1, exampleHunk2] = pre @ h # post
      \<and> applyHunks (normalizeEOL exampleDoc) 0 pre = Inr st
      \<and> applySingleHunk (content st) h (lastAppliedLine st) = None
      \<and> HunkApplicationFailed ''@@ -2 +2 @@'' = HunkApplicationFailed (header h)"
    by blast
  with applyDiffPatch_first_failure [OF p, of exampleDoc EOL_LF "HunkApplicationFailed ''@@ -2 +2 @@''"]
  have "applyDiffPatch exampleDoc exampleDiff EOL_LF = Inl (HunkApplicationFailed ''@@ -2 +2 @@'')"
    by blast
  with p show ?thesis by (intro conjI)
qed

lemma exampleBadDiff_parts:
  "hunkParts exampleBadDiff =
     [''@@ -1 +1 @@'' @ LF # ''-a'' @ LF # ''+b'' @ [LF],
      ''@@ garbage @@'' @ LF # '' x'' @ [LF],
      ''@@ -2 +2 @@'' @ LF # ''-b'']"
  by (simp add: exampleBadDiff_def hunkParts_def isLineTerminator_def LF_def CR_def)

lemma exampleBadDiff_bad: "matchHeader (headerOf (''@@ garbage @@'' @ LF # '' x'' @ [LF])) = None"
  by (simp add: eval_simps)

theorem parseHunks_malformed_witness:
  "(\<exists>h. parseHunks exampleBadDiff = Inl (MalformedHunkHeader h)
        \<and> applyDiffPatch exampleDoc exampleBadDiff EOL_CRLF = Inl (MalformedHunkHeader h))
   \<and> parseHunks exampleBadDiff = Inl (MalformedHunkHeader ''@@ garbage @@'')"
proof -
  have n: "normalizeEOL exampleBadDiff = exampleBadDiff"
    by (simp add: exampleBadDiff_def LF_def CR_def)
  have "\<exists>raw \<in> set (hunkParts exampleBadDiff). matchHeader (headerOf raw) = None"
    using exampleBadDiff_bad by (simp add: exampleBadDiff_parts)
  from parseHunks_malformed [OF this] n
  have "\<exists>h. parseHunks exampleBadDiff = Inl (MalformedHunkHeader h)
        \<and> applyDiffPatch exampleDoc exampleBadDiff EOL_CRLF = Inl (MalformedHunkHeader h)"
    by blast
  moreover have "parseHunks exampleBadDiff = Inl (MalformedHunkHeader ''@@ garbage @@'')"
    by (simp add: parseHunks_def exampleBadDiff_parts) (simp add: eval_simps)
  ultimately show ?thesis by (intro conjI)
qed

lemma example_trace:
  "cursorTrace exampleDoc 0 [exampleHunk1, exampleHunk3] =
     [\<lparr>searchStart = 0, matchedIndex = 0, nextCursor = 1\<rparr>,
      \<lparr>searchStart = 1, matchedIndex = 1, nextCursor = 2\<rparr>]"
proof -
  have f1: "findBestWindow (split_lines exampleDoc) (oldBlockOf (body exampleHunk1)) 0 = Some 0"
    by (simp add: exampleDoc_def exampleHunk1_def eval_simps)
  have f3: "findBestWindow (split_lines (''b'' @ LF # ''b'')) (oldBlockOf (body exampleHunk3)) 1 = Some 1"
    by (simp add: exampleHunk3_def eval_simps)
  show ?thesis
    using f1 f3 exampleHunk1_applies exampleHunk3_applies by simp
qed

theorem cursor_monotone_witness:
  "cursorTrace exampleDoc 0 [exampleHunk1, exampleHunk3] =
     [\<lparr>searchStart = 0, matchedIndex = 0, nextCursor = 1\<rparr>,
      \<lparr>searchStart = 1, matchedIndex = 1, nextCursor = 2\<rparr>]
   \<and> nextCursor (cursorTrace exampleDoc 0 [exampleHunk1, exampleHunk3] ! 0)
       \<le> matchedIndex (cursorTrace exampleDoc 0 [exampleHunk1, exampleHunk3] ! 1)
   \<and> applyHunks exampleDoc 0 [exampleHunk1, exampleHunk3]
       = Inr \<lparr>content = ''b'' @ LF # ''c'', lastAppliedLine = 2\<rparr>
   \<and> length (cursorTrace exampleDoc 0 [exampleHunk1, exampleHunk3])
       = length [exampleHunk1, exampleHunk3]"
proof -
  let ?tr = "cursorTrace exampleDoc 0 [exampleHunk1, exampleHunk3]"
  have l: "(1::nat) < length ?tr" unfolding example_trace by simp
  from cursor_monotone [of exampleDoc 0 "[exampleHunk1, exampleHunk3]"] l
  have "\<forall>j < (1::nat). nextCursor (?tr ! j) \<le> matchedIndex (?tr ! 1)" by blast
  then have "nextCursor (?tr ! 0) \<le> matchedIndex (?tr ! 1)" by simp
  moreover have r: "applyHunks exampleDoc 0 [exampleHunk1, exampleHunk3]
       = Inr \<lparr>content = ''b'' @ LF # ''c'', lastAppliedLine = 2\<rparr>"
    using exampleHunk1_applies exampleHunk3_applies by simp
  moreover from cursor_monotone [of exampleDoc 0 "[exampleHunk1, exampleHunk3]"] r
  have "length ?tr = length [exampleHunk1, exampleHunk3]" by blast
  ultimately show ?thesis using example_trace by (intro conjI)
qed

lemma examplePreambleDiff_parse:
  "parseHunks examplePreambleDiff =
     Inr [\<lparr>header = ''@@ -1 +1 @@'', body = [''-a'', ''+b''], oldStart = 1, oldCount = None,
           newStart = 1, newCount = None\<rparr>]"
  by (simp add: examplePreambleDiff_def eval_simps)

text \<open>
  C8. A text whose hunk header stands at the start of its second line, with no
  \<open>---\<close>/\<open>+++\<close> pair, is not taken for a unified diff, although the parser finds its
  hunk: the first test of \<open>isLikelyUnifiedDiff\<close> looks at the start of the text only.
\<close>

theorem isLikelyUnifiedDiff_preamble:
  "isLikelyUnifiedDiff examplePreambleDiff = False
   \<and> parseHunks examplePreambleDiff =
       Inr [\<lparr>header = ''@@ -1 +1 @@'', body = [''-a'', ''+b''], oldStart = 1, oldCount = None,
             newStart = 1, newCount = None\<rparr>]"
proof -
  have "isLikelyUnifiedDiff examplePreambleDiff = False"
    by (simp add: examplePreambleDiff_def isLikelyUnifiedDiff_def startsWithHunkHeader_def
        fileHeadersAt_def isLineTerminator_def LF_def CR_def)
  with examplePreambleDiff_parse show ?thesis by (intro conjI)
qed

end
